theory Spec2Isabelle
  imports Complex_Main "HOL-Library.Multiset" "HOL-Library.Log_Nat"
begin

section \<open>Numbers\<close>

text \<open>
  The pricing module (\<^verbatim>\<open>src/utils/branchBasedPricing.js\<close>) computes with JavaScript
  numbers, which are IEEE-754 binary64 values. A finite double is a rational number, so
  a number is a \<open>jsnum\<close>: a rational, one of the two infinities, or \<^verbatim>\<open>NaN\<close>. The zero
  of \<open>rat\<close> stands for both zeros of the format; the sign of a zero matters only when a
  zero is a divisor, and the divisors of the module are never a negative zero.

  Branch counts are integers (\<open>int\<close>). The monthly price is a sum and a product of
  integers, which doubles compute exactly below \<open>2^53\<close>: it is an exact rational, and
  so are the difference of two monthly prices and the totals of the aggregation. The
  yearly price and the figures of the pricing breakdown multiply by a discount and
  divide, where doubles round: they are computed with the rounding operations
  \<open>dbl_mul\<close>, \<open>dbl_div\<close> and \<open>dbl_sub\<close> below. The percent change of a price
  difference and the averages of the aggregation are kept as exact quotients.
  A JavaScript division never raises: dividing by zero yields \<^verbatim>\<open>Infinity\<close>,
  \<^verbatim>\<open>-Infinity\<close> or \<^verbatim>\<open>NaN\<close>.
\<close>

datatype jsnum = Finite rat | PosInfinity | NegInfinity | NaN

subsection \<open>Rounding to the nearest double\<close>

text \<open>
  \<open>floor_log2 x\<close> is the exponent \<open>e\<close> of a positive rational: \<open>2^e \<le> x < 2^(e+1)\<close>.
  It is computed from the bit lengths of the numerator and the denominator.
\<close>

definition floor_log2 :: "rat \<Rightarrow> int" where
  "floor_log2 x =
     (let k = bitlen (fst (quotient_of x)) - bitlen (snd (quotient_of x))
      in if 2 powi k \<le> x then k else k - 1)"

text \<open>Rounding to the nearest integer, a tie going to the even one.\<close>

definition round_half_even :: "rat \<Rightarrow> int" where
  "round_half_even r =
     (let n = \<lfloor>r\<rfloor>; f = r - of_int n
      in if f < 1 / 2 then n
         else if 1 / 2 < f then n + 1
         else if even n then n else n + 1)"

text \<open>
  The spacing of the doubles around \<open>x\<close>: 53 significant bits, and the fixed spacing
  \<open>2^-1074\<close> of the subnormal numbers below \<open>2^-1022\<close>.
\<close>

definition ulp :: "rat \<Rightarrow> rat" where
  "ulp x = 2 powi (max (floor_log2 \<bar>x\<bar>) (- 1022) - 52)"

definition round_to_ulp :: "rat \<Rightarrow> rat" where
  "round_to_ulp x = of_int (round_half_even (x / ulp x)) * ulp x"

text \<open>
  Round to nearest, ties to even, as every arithmetic operation of a double does. A
  result whose rounded magnitude reaches \<open>2^1024\<close> overflows to an infinity.
\<close>

definition round_double :: "rat \<Rightarrow> jsnum" where
  "round_double x =
     (if x = 0 then Finite 0
      else (let r = round_to_ulp x
            in if 2 powi 1024 \<le> \<bar>r\<bar>
               then (if 0 < x then PosInfinity else NegInfinity)
               else Finite r))"

definition is_double :: "rat \<Rightarrow> bool" where
  "is_double x = (round_double x = Finite x)"

subsection \<open>Arithmetic and comparison of doubles\<close>

definition inf_of_sign :: "rat \<Rightarrow> jsnum" where
  "inf_of_sign s = (if 0 < s then PosInfinity else if s < 0 then NegInfinity else NaN)"

fun sign_of :: "jsnum \<Rightarrow> rat" where
  "sign_of (Finite a) = sgn a"
| "sign_of PosInfinity = 1"
| "sign_of NegInfinity = - 1"
| "sign_of NaN = 0"

fun dbl_mul :: "jsnum \<Rightarrow> jsnum \<Rightarrow> jsnum" where
  "dbl_mul NaN y = NaN"
| "dbl_mul x NaN = NaN"
| "dbl_mul (Finite a) (Finite b) = round_double (a * b)"
| "dbl_mul x y = inf_of_sign (sign_of x * sign_of y)"

fun dbl_div :: "jsnum \<Rightarrow> jsnum \<Rightarrow> jsnum" where
  "dbl_div NaN y = NaN"
| "dbl_div x NaN = NaN"
| "dbl_div (Finite a) (Finite b) =
     (if b = 0 then inf_of_sign (sgn a) else round_double (a / b))"
| "dbl_div (Finite a) y = Finite 0"
| "dbl_div x (Finite b) = inf_of_sign (sign_of x * (if b < 0 then - 1 else 1))"
| "dbl_div x y = NaN"

fun dbl_sub :: "jsnum \<Rightarrow> jsnum \<Rightarrow> jsnum" where
  "dbl_sub NaN y = NaN"
| "dbl_sub x NaN = NaN"
| "dbl_sub (Finite a) (Finite b) = round_double (a - b)"
| "dbl_sub (Finite a) PosInfinity = NegInfinity"
| "dbl_sub (Finite a) NegInfinity = PosInfinity"
| "dbl_sub PosInfinity PosInfinity = NaN"
| "dbl_sub NegInfinity NegInfinity = NaN"
| "dbl_sub PosInfinity y = PosInfinity"
| "dbl_sub NegInfinity y = NegInfinity"

text \<open>The comparisons \<^verbatim>\<open><\<close> and \<^verbatim>\<open><=\<close>, which are false on \<^verbatim>\<open>NaN\<close>.\<close>

fun js_less :: "jsnum \<Rightarrow> jsnum \<Rightarrow> bool" where
  "js_less (Finite a) (Finite b) = (a < b)"
| "js_less (Finite a) PosInfinity = True"
| "js_less NegInfinity (Finite b) = True"
| "js_less NegInfinity PosInfinity = True"
| "js_less x y = False"

fun js_le :: "jsnum \<Rightarrow> jsnum \<Rightarrow> bool" where
  "js_le (Finite a) (Finite b) = (a \<le> b)"
| "js_le (Finite a) PosInfinity = True"
| "js_le NegInfinity (Finite b) = True"
| "js_le NegInfinity PosInfinity = True"
| "js_le NegInfinity NegInfinity = True"
| "js_le PosInfinity PosInfinity = True"
| "js_le x y = False"

section \<open>Pricing configuration\<close>

record pricing_config =
  currency :: string
  basePriceMonthly :: rat
  additionalBranchPrice :: rat
  minBranches :: int
  maxBranches :: int

definition PRICING_CONFIG :: pricing_config where
  "PRICING_CONFIG =
     \<lparr> currency = ''SAR'',
       basePriceMonthly = 299,
       additionalBranchPrice = 99,
       minBranches = 1,
       maxBranches = - 1 \<rparr>"

section \<open>Monthly and yearly price\<close>

definition calculateMonthlyPrice :: "int \<Rightarrow> rat" where
  "calculateMonthlyPrice branchCount =
     (if branchCount < minBranches PRICING_CONFIG
      then basePriceMonthly PRICING_CONFIG
      else (let additionalBranches = max 0 (branchCount - 1)
            in basePriceMonthly PRICING_CONFIG
               + of_int additionalBranches * additionalBranchPrice PRICING_CONFIG))"

text \<open>
  The second parameter of \<^verbatim>\<open>calculateYearlyPrice\<close> has the default value 17:
  \<open>None\<close> is the call that omits it. Each of the four operations rounds its result.
\<close>

definition calculateYearlyPrice :: "int \<Rightarrow> jsnum option \<Rightarrow> jsnum" where
  "calculateYearlyPrice branchCount discountArg =
     (let discountPercent = (case discountArg of None \<Rightarrow> Finite 17 | Some d \<Rightarrow> d);
          monthlyPrice = calculateMonthlyPrice branchCount;
          yearlyPrice = dbl_mul (Finite monthlyPrice) (Finite 12);
          discountAmount = dbl_div (dbl_mul yearlyPrice discountPercent) (Finite 100)
      in dbl_sub yearlyPrice discountAmount)"

section \<open>Pricing breakdown\<close>

record monthly_part =
  m_total :: rat
  m_perBranch :: jsnum
  m_currency :: string

record yearly_part =
  y_total :: jsnum
  y_savings :: jsnum
  y_savingsPercent :: rat
  y_perMonth :: jsnum
  y_currency :: string

record pricing_breakdown =
  branchCount :: int
  basePrice :: rat
  additionalBranches :: int
  additionalBranchCost :: rat
  monthly :: monthly_part
  yearly :: yearly_part

definition getPricingBreakdown :: "int \<Rightarrow> pricing_breakdown" where
  "getPricingBreakdown n =
     (let additional = max 0 (n - 1);
          monthlyTotal = calculateMonthlyPrice n;
          yearlyTotal = calculateYearlyPrice n None;
          yearlySavings = dbl_sub (dbl_mul (Finite monthlyTotal) (Finite 12)) yearlyTotal
      in \<lparr> branchCount = n,
           basePrice = basePriceMonthly PRICING_CONFIG,
           additionalBranches = additional,
           additionalBranchCost = of_int additional * additionalBranchPrice PRICING_CONFIG,
           monthly = \<lparr> m_total = monthlyTotal,
                       m_perBranch = dbl_div (Finite monthlyTotal) (Finite (of_int n)),
                       m_currency = currency PRICING_CONFIG \<rparr>,
           yearly = \<lparr> y_total = yearlyTotal,
                      y_savings = yearlySavings,
                      y_savingsPercent = 17,
                      y_perMonth = dbl_div yearlyTotal (Finite 12),
                      y_currency = currency PRICING_CONFIG \<rparr> \<rparr>)"

section \<open>Price difference\<close>

record price_difference =
  currentPrice :: rat
  newPrice :: rat
  difference :: rat
  branchDifference :: int
  isIncrease :: bool
  isDecrease :: bool
  percentChange :: rat

definition calculatePriceDifference :: "int \<Rightarrow> int \<Rightarrow> price_difference" where
  "calculatePriceDifference currentBranches newBranches =
     (let cur = calculateMonthlyPrice currentBranches;
          new = calculateMonthlyPrice newBranches;
          diff = new - cur;
          branchDiff = newBranches - currentBranches
      in \<lparr> currentPrice = cur,
           newPrice = new,
           difference = diff,
           branchDifference = branchDiff,
           isIncrease = (diff > 0),
           isDecrease = (diff < 0),
           percentChange = (if cur > 0 then (diff / cur) * 100 else 0) \<rparr>)"

section \<open>Branch count validation\<close>

text \<open>
  The error message is a template literal that renders \<^verbatim>\<open>minBranches\<close> in decimal.
\<close>

fun string_of_nat :: "nat \<Rightarrow> string" where
  "string_of_nat n =
     (if n < 10 then [char_of (48 + n)]
      else string_of_nat (n div 10) @ [char_of (48 + n mod 10)])"

declare string_of_nat.simps [simp del]

definition string_of_int :: "int \<Rightarrow> string" where
  "string_of_int i =
     (if i < 0 then ''-'' @ string_of_nat (nat (- i)) else string_of_nat (nat i))"

record validation_result =
  isValid :: bool
  v_branchCount :: int
  v_minBranches :: int
  v_maxBranches :: int
  error :: "string option"

definition validateBranchCount :: "int \<Rightarrow> validation_result" where
  "validateBranchCount n =
     (let valid = (n \<ge> minBranches PRICING_CONFIG \<and>
                   (maxBranches PRICING_CONFIG = - 1 \<or> n \<le> maxBranches PRICING_CONFIG))
      in \<lparr> isValid = valid,
           v_branchCount = n,
           v_minBranches = minBranches PRICING_CONFIG,
           v_maxBranches = maxBranches PRICING_CONFIG,
           error = (if \<not> valid
                    then Some (''Branch count must be at least ''
                               @ string_of_int (minBranches PRICING_CONFIG))
                    else None) \<rparr>)"

section \<open>Brand metrics aggregation\<close>

text \<open>
  \<^verbatim>\<open>fetchBrandMetrics\<close> of \<^verbatim>\<open>src/pages/BrandOverview.jsx\<close> requests the statistics
  of every branch from the external API, waits for all requests to settle, and reduces
  the answers to brand totals and a performance table. The API is not part of the
  module: the model takes, for every branch, the outcome of its request. A fulfilled
  request carries a statistics object, whose fields may be absent (the source reads each
  of them with \<^verbatim>\<open>|| 0\<close>); a rejected request carries the error.
\<close>

record branch =
  branch_id :: string
  branch_name :: string
  branch_location :: string

record statistics =
  stat_revenue :: "rat option"
  stat_orders :: "rat option"
  stat_growth :: "rat option"

datatype fetch_outcome = Rejected string | Resolved statistics

text \<open>The handler \<^verbatim>\<open>.catch(err => { console.error(...); return null; })\<close> of each request.\<close>

fun catch_null :: "fetch_outcome \<Rightarrow> statistics option" where
  "catch_null (Rejected err) = None"
| "catch_null (Resolved metrics) = Some metrics"

text \<open>\<^verbatim>\<open>x || 0\<close> on a field that is a number or absent.\<close>

definition or_zero :: "rat option \<Rightarrow> rat" where
  "or_zero x = (case x of None \<Rightarrow> 0 | Some v \<Rightarrow> v)"

record performance_row =
  row_id :: string
  name :: string
  location :: string
  revenue :: rat
  orders :: rat
  averageOrder :: jsnum
  growth :: rat

definition make_row :: "branch \<Rightarrow> statistics \<Rightarrow> performance_row" where
  "make_row b metrics =
     \<lparr> row_id = branch_id b,
       name = branch_name b,
       location = branch_location b,
       revenue = or_zero (stat_revenue metrics),
       orders = or_zero (stat_orders metrics),
       averageOrder =
         (case stat_orders metrics of
            None \<Rightarrow> Finite 0
          | Some n \<Rightarrow>
              if n > 0
              then (case stat_revenue metrics of None \<Rightarrow> NaN | Some r \<Rightarrow> Finite (r / n))
              else Finite 0),
       growth = or_zero (stat_growth metrics) \<rparr>"

text \<open>The three variables that the \<^verbatim>\<open>forEach\<close> loop updates.\<close>

record aggregation =
  acc_totalRevenue :: rat
  acc_totalOrders :: rat
  acc_rows :: "performance_row list"

fun forEach_metrics :: "statistics option list \<Rightarrow> branch list \<Rightarrow> aggregation \<Rightarrow> aggregation" where
  "forEach_metrics (metrics # rest) (b # bs) acc =
     forEach_metrics rest bs
       (case metrics of
          None \<Rightarrow> acc
        | Some m \<Rightarrow>
            \<lparr> acc_totalRevenue = acc_totalRevenue acc + or_zero (stat_revenue m),
              acc_totalOrders = acc_totalOrders acc + or_zero (stat_orders m),
              acc_rows = acc_rows acc @ [make_row b m] \<rparr>)"
| "forEach_metrics _ _ acc = acc"

text \<open>
  \<^verbatim>\<open>Array.prototype.sort\<close> with a comparator: a stable sort (ECMAScript 2019) that puts
  \<open>a\<close> before \<open>b\<close> when the comparator is negative on \<open>(a, b)\<close> and keeps the order of
  elements that compare equal. The model is the stable insertion sort.
\<close>

fun insert_sorted :: "('a \<Rightarrow> 'a \<Rightarrow> rat) \<Rightarrow> 'a \<Rightarrow> 'a list \<Rightarrow> 'a list" where
  "insert_sorted cmp x [] = [x]"
| "insert_sorted cmp x (y # ys) =
     (if cmp x y \<le> 0 then x # y # ys else y # insert_sorted cmp x ys)"

definition array_sort :: "('a \<Rightarrow> 'a \<Rightarrow> rat) \<Rightarrow> 'a list \<Rightarrow> 'a list" where
  "array_sort cmp xs = foldr (insert_sorted cmp) xs []"

text \<open>The comparator \<^verbatim>\<open>(a, b) => b.revenue - a.revenue\<close>.\<close>

definition byRevenueDesc :: "performance_row \<Rightarrow> performance_row \<Rightarrow> rat" where
  "byRevenueDesc a b = revenue b - revenue a"

record brand_metrics =
  totalRevenue :: rat
  totalOrders :: rat
  averageOrderValue :: rat
  growthRate :: rat

record page_state =
  loading :: bool
  brandMetrics :: brand_metrics
  branchPerformance :: "performance_row list"

text \<open>
  Every request has its own \<^verbatim>\<open>catch\<close>, so \<^verbatim>\<open>Promise.all\<close> never rejects, and no
  step of the body raises: the outer \<^verbatim>\<open>catch\<close> is not reached and the function always
  sets both state variables before \<^verbatim>\<open>finally\<close> clears \<^verbatim>\<open>loading\<close>.
\<close>

definition fetchBrandMetrics :: "(branch \<times> fetch_outcome) list \<Rightarrow> page_state \<Rightarrow> page_state" where
  "fetchBrandMetrics fetched st =
     (let branches = map fst fetched;
          allBranchMetrics = map (\<lambda>p. catch_null (snd p)) fetched;
          acc = forEach_metrics allBranchMetrics branches
                  \<lparr> acc_totalRevenue = 0, acc_totalOrders = 0, acc_rows = [] \<rparr>;
          branchPerformanceData = array_sort byRevenueDesc (acc_rows acc)
      in st \<lparr> loading := False,
              brandMetrics :=
                \<lparr> totalRevenue = acc_totalRevenue acc,
                  totalOrders = acc_totalOrders acc,
                  averageOrderValue =
                    (if acc_totalOrders acc > 0
                     then acc_totalRevenue acc / acc_totalOrders acc else 0),
                  growthRate =
                    (if length branchPerformanceData > 0
                     then foldl (\<lambda>sum b. sum + growth b) 0 branchPerformanceData
                          / of_nat (length branchPerformanceData)
                     else 0) \<rparr>,
              branchPerformance := branchPerformanceData \<rparr>)"

text \<open>
  The branches whose request was fulfilled, with their statistics, in the order of the
  branch list: the reference against which the aggregation is stated.
\<close>

fun succeeded :: "(branch \<times> fetch_outcome) list \<Rightarrow> (branch \<times> statistics) list" where
  "succeeded [] = []"
| "succeeded ((b, Rejected err) # rest) = succeeded rest"
| "succeeded ((b, Resolved metrics) # rest) = (b, metrics) # succeeded rest"

definition input_rows :: "(branch \<times> fetch_outcome) list \<Rightarrow> performance_row list" where
  "input_rows fetched = map (\<lambda>p. make_row (fst p) (snd p)) (succeeded fetched)"

section \<open>Properties of rounding\<close>

subsection \<open>Powers of two and exponents\<close>

lemma pow2_add: "(2::rat) powi (a + b) = 2 powi a * 2 powi b"
  by (simp add: power_int_add)

lemma pow2_diff: "(2::rat) powi (a - b) = 2 powi a / 2 powi b"
  by (simp add: power_int_diff)

lemma pow2_less_iff: "((2::rat) powi a < 2 powi b) = (a < b)"
proof
  assume l: "(2::rat) powi a < 2 powi b"
  show "a < b"
  proof (rule ccontr)
    assume "\<not> a < b"
    then have "b \<le> a" by simp
    then have "(2::rat) powi b \<le> 2 powi a" by (simp add: power_int_increasing)
    with l show False by simp
  qed
next
  assume "a < b"
  then show "(2::rat) powi a < 2 powi b" by (simp add: power_int_strict_increasing)
qed

lemma pow2_le_iff: "((2::rat) powi a \<le> 2 powi b) = (a \<le> b)"
  using pow2_less_iff [of b a] by (simp add: not_less [symmetric])

lemma bitlen_rat_bounds:
  assumes "0 < p"
  shows "2 powi (bitlen p - 1) \<le> (of_int p :: rat)" and "(of_int p :: rat) < 2 powi (bitlen p)"
proof -
  from assms have b1: "1 \<le> bitlen p"
    using bitlen_eq_zero_iff [of p] bitlen_nonneg [of p] by linarith
  from bitlen_bounds [OF assms]
  have lo: "2 ^ nat (bitlen p - 1) \<le> p" and hi: "p < 2 ^ nat (bitlen p)" by simp_all
  from lo have "(of_int (2 ^ nat (bitlen p - 1)) :: rat) \<le> of_int p"
    by (simp only: of_int_le_iff)
  then show "2 powi (bitlen p - 1) \<le> (of_int p :: rat)"
    using b1 by (simp add: power_int_def)
  from hi have "(of_int p :: rat) < of_int (2 ^ nat (bitlen p))"
    by (simp only: of_int_less_iff)
  then show "(of_int p :: rat) < 2 powi (bitlen p)"
    using b1 by (simp add: power_int_def)
qed

text \<open>\<open>floor_log2\<close> computes the exponent: the bit lengths give it up to one.\<close>

lemma floor_log2_bounds:
  assumes "0 < x"
  shows "2 powi (floor_log2 x) \<le> x" and "x < 2 powi (floor_log2 x + 1)"
proof -
  obtain p q where pq: "quotient_of x = (p, q)" by (cases "quotient_of x")
  then have q: "0 < q" and x: "x = of_int p / of_int q"
    by (simp_all add: quotient_of_denom_pos quotient_of_div)
  from assms x q have p: "0 < p" by (simp add: zero_less_divide_iff)
  define k where "k = bitlen p - bitlen q"
  have qr: "(0::rat) < of_int q" using q by simp
  have "x < 2 powi (bitlen p) / 2 powi (bitlen q - 1)"
  proof -
    have "of_int p / of_int q < (2 powi (bitlen p) :: rat) / of_int q"
      using bitlen_rat_bounds(2) [OF p] qr by (simp add: divide_strict_right_mono)
    also have "\<dots> \<le> 2 powi (bitlen p) / 2 powi (bitlen q - 1)"
      using bitlen_rat_bounds(1) [OF q] by (simp add: frac_le)
    finally show ?thesis by (simp add: x)
  qed
  then have hi: "x < 2 powi (k + 1)"
    by (simp add: k_def pow2_diff pow2_add)
  have "2 powi (bitlen p - 1) / 2 powi (bitlen q) < x"
  proof -
    have "(2 powi (bitlen p - 1) :: rat) / 2 powi (bitlen q) < 2 powi (bitlen p - 1) / of_int q"
      using bitlen_rat_bounds(2) [OF q] qr by (simp add: divide_strict_left_mono)
    also have "\<dots> \<le> of_int p / of_int q"
      using bitlen_rat_bounds(1) [OF p] qr by (simp add: divide_right_mono)
    finally show ?thesis by (simp add: x)
  qed
  then have lo: "2 powi (k - 1) < x"
    by (simp add: k_def pow2_diff)
  have fl: "floor_log2 x = (if 2 powi k \<le> x then k else k - 1)"
    by (simp add: floor_log2_def pq k_def Let_def)
  show "2 powi (floor_log2 x) \<le> x"
    using lo by (simp add: fl)
  show "x < 2 powi (floor_log2 x + 1)"
    using hi by (auto simp add: fl)
qed

lemma floor_log2_unique:
  assumes "2 powi e \<le> x" and "x < 2 powi (e + 1)"
  shows "floor_log2 x = e"
proof -
  have pos: "0 < x" using assms(1) by (rule less_le_trans [rotated]) simp
  note b = floor_log2_bounds [OF pos]
  have "(2::rat) powi e < 2 powi (floor_log2 x + 1)"
    using assms(1) b(2) by linarith
  then have 1: "e < floor_log2 x + 1"
    by (simp only: pow2_less_iff)
  have "(2::rat) powi (floor_log2 x) < 2 powi (e + 1)"
    using assms(2) b(1) by linarith
  then have 2: "floor_log2 x < e + 1"
    by (simp only: pow2_less_iff)
  from 1 2 show ?thesis by linarith
qed

subsection \<open>Rounding to an integer\<close>

lemma round_half_even_error: "\<bar>of_int (round_half_even r) - r\<bar> \<le> 1 / 2"
proof -
  have "of_int \<lfloor>r\<rfloor> \<le> r" "r < of_int \<lfloor>r\<rfloor> + 1" by linarith+
  then show ?thesis
    by (auto simp add: round_half_even_def Let_def)
qed

lemma round_half_even_int: "round_half_even (of_int k) = k"
  by (simp add: round_half_even_def)

lemma round_half_even_ge: "of_int k \<le> r \<Longrightarrow> k \<le> round_half_even r"
proof -
  assume "of_int k \<le> r"
  then have "k \<le> \<lfloor>r\<rfloor>" by (simp add: le_floor_iff)
  then show ?thesis by (auto simp add: round_half_even_def Let_def)
qed

lemma round_half_even_le: "r \<le> of_int k \<Longrightarrow> round_half_even r \<le> k"
proof -
  assume a: "r \<le> of_int k"
  have e: "\<bar>of_int (round_half_even r) - r\<bar> \<le> 1 / 2" by (rule round_half_even_error)
  then have "(of_int (round_half_even r) :: rat) \<le> of_int k + 1 / 2" using a by linarith
  then have "(of_int (round_half_even r) :: rat) < of_int (k + 1)" by simp
  then have "round_half_even r < k + 1" by (simp only: of_int_less_iff)
  then show ?thesis by simp
qed

lemma round_half_even_gt_half: "of_int k + 1 / 2 < r \<Longrightarrow> k + 1 \<le> round_half_even r"
proof -
  assume a: "of_int k + 1 / 2 < r"
  have e: "\<bar>of_int (round_half_even r) - r\<bar> \<le> 1 / 2" by (rule round_half_even_error)
  then have "(of_int k :: rat) < of_int (round_half_even r)" using a by linarith
  then have "k < round_half_even r" by (simp only: of_int_less_iff)
  then show ?thesis by simp
qed

subsection \<open>Rounding to a double\<close>

lemma ulp_pos: "0 < ulp x"
  by (simp add: ulp_def)

lemma round_to_ulp_error: "\<bar>round_to_ulp x - x\<bar> \<le> ulp x / 2"
proof -
  define n where "n = round_half_even (x / ulp x)"
  have u: "0 < ulp x" by (rule ulp_pos)
  have "\<bar>of_int n - x / ulp x\<bar> \<le> 1 / 2"
    unfolding n_def by (rule round_half_even_error)
  then have "\<bar>of_int n - x / ulp x\<bar> * ulp x \<le> 1 / 2 * ulp x"
    using u by (simp only: mult_le_cancel_right_pos)
  moreover have "\<bar>of_int n - x / ulp x\<bar> * ulp x = \<bar>of_int n * ulp x - x\<bar>"
  proof -
    have "\<bar>of_int n - x / ulp x\<bar> * ulp x = \<bar>(of_int n - x / ulp x) * ulp x\<bar>"
      using u by (simp add: abs_mult)
    also have "(of_int n - x / ulp x) * ulp x = of_int n * ulp x - x"
      using u by (simp add: left_diff_distrib)
    finally show ?thesis .
  qed
  ultimately show ?thesis
    by (simp add: round_to_ulp_def n_def)
qed

lemma round_to_ulp_nonpos: "x \<le> 0 \<Longrightarrow> round_to_ulp x \<le> 0"
proof -
  assume "x \<le> 0"
  then have "x / ulp x \<le> of_int 0"
    using ulp_pos [of x] by (simp add: divide_le_0_iff)
  then have "round_half_even (x / ulp x) \<le> 0" by (rule round_half_even_le)
  then show ?thesis
    using ulp_pos [of x] by (simp add: round_to_ulp_def mult_le_0_iff)
qed

lemma round_to_ulp_fixed:
  assumes "a = of_int K * ulp a"
  shows "round_to_ulp a = a"
proof -
  have "a / ulp a = of_int K"
    using assms ulp_pos [of a] by (simp add: divide_eq_eq)
  then have "round_half_even (a / ulp a) = K"
    by (simp only: round_half_even_int)
  then show ?thesis using assms by (simp add: round_to_ulp_def)
qed

lemma ulp_le:
  assumes "x \<noteq> 0"
  shows "ulp x \<le> \<bar>x\<bar> / 2 ^ 52 + 1 / 2 ^ 1074"
proof -
  have pos: "0 < \<bar>x\<bar>" using assms by simp
  have lo: "2 powi (floor_log2 \<bar>x\<bar>) \<le> \<bar>x\<bar>" by (rule floor_log2_bounds(1) [OF pos])
  show ?thesis
  proof (cases "- 1022 \<le> floor_log2 \<bar>x\<bar>")
    case True
    then have "ulp x = 2 powi (floor_log2 \<bar>x\<bar>) / 2 ^ 52"
      by (simp add: ulp_def max_def pow2_diff)
    also have "\<dots> \<le> \<bar>x\<bar> / 2 ^ 52"
      using lo by (simp add: divide_right_mono)
    finally show ?thesis by simp
  next
    case False
    then have "ulp x = 2 powi (- 1074)"
      by (simp add: ulp_def max_def)
    also have "\<dots> = 1 / 2 ^ 1074"
      by (simp add: power_int_minus_divide)
    finally show ?thesis by simp
  qed
qed

lemma round_double_cases:
  "x \<noteq> 0 \<Longrightarrow>
   round_double x = Finite (round_to_ulp x)
   \<or> (0 < x \<and> round_double x = PosInfinity)
   \<or> (x < 0 \<and> round_double x = NegInfinity)"
  by (auto simp add: round_double_def Let_def)

text \<open>
  The error of one rounding: half a unit in the last place, which is a relative error
  of \<open>2^-53\<close>, or \<open>2^-1075\<close> among the subnormal numbers.
\<close>

lemma round_double_error:
  assumes "\<bar>x\<bar> \<le> 2 ^ 1023"
  shows "\<exists>r. round_double x = Finite r \<and> \<bar>r - x\<bar> \<le> \<bar>x\<bar> / 2 ^ 53 + 1 / 2 ^ 1075"
proof (cases "x = 0")
  case True
  then show ?thesis by (simp add: round_double_def)
next
  case False
  have e: "\<bar>round_to_ulp x - x\<bar> \<le> ulp x / 2" by (rule round_to_ulp_error)
  have "ulp x / 2 \<le> (\<bar>x\<bar> / 2 ^ 52 + 1 / 2 ^ 1074) / 2"
    using ulp_le [OF False] by (simp only: divide_right_mono zero_le_numeral)
  also have "\<dots> = \<bar>x\<bar> / 2 ^ 53 + 1 / 2 ^ 1075"
    by simp
  finally have e2: "\<bar>round_to_ulp x - x\<bar> \<le> \<bar>x\<bar> / 2 ^ 53 + 1 / 2 ^ 1075"
    using e by linarith
  have "\<bar>round_to_ulp x\<bar> \<le> \<bar>x\<bar> + (\<bar>x\<bar> / 2 ^ 53 + 1 / 2 ^ 1075)"
    using e2 by linarith
  also have "\<dots> \<le> 2 ^ 1023 + ((2 ^ 1023) / 2 ^ 53 + 1 / 2 ^ 1075)"
    using assms by (simp add: add_mono divide_right_mono)
  also have "\<dots> < (2::rat) ^ 1024"
    by simp
  finally have "\<not> 2 powi 1024 \<le> \<bar>round_to_ulp x\<bar>"
    by simp
  then have "round_double x = Finite (round_to_ulp x)"
    using False by (simp add: round_double_def Let_def)
  with e2 show ?thesis by blast
qed

text \<open>
  Rounding a number whose exponent \<open>e\<close> is known and in the normal range: the rounded
  significand times \<open>2^(e - 52)\<close>. This evaluates a rounding without the search for
  the exponent.
\<close>

lemma round_double_normal:
  assumes lo: "2 powi e \<le> \<bar>x\<bar>" and hi: "\<bar>x\<bar> < 2 powi (e + 1)"
    and range: "- 1022 \<le> e" "e \<le> 1022"
  shows "round_double x = Finite (of_int (round_half_even (x / 2 powi (e - 52))) * 2 powi (e - 52))"
proof -
  define u :: rat where "u = 2 powi (e - 52)"
  define n where "n = round_half_even (x / u)"
  have upos: "0 < u" by (simp add: u_def)
  have "(0::rat) < 2 powi e" by simp
  with lo have "0 < \<bar>x\<bar>" by linarith
  then have x0: "x \<noteq> 0" by simp
  have "floor_log2 \<bar>x\<bar> = e" by (rule floor_log2_unique [OF lo hi])
  moreover have "max e (- 1022) = e" using range by simp
  ultimately have ulp: "ulp x = u" by (simp only: ulp_def u_def)
  then have r: "round_to_ulp x = of_int n * u" by (simp add: round_to_ulp_def n_def)
  have top: "(2::rat) powi (e + 1) = of_int (2 ^ 53) * u"
    by (simp add: u_def pow2_diff pow2_add)
  have "\<bar>x\<bar> / u < of_int (2 ^ 53)"
    using hi upos by (simp add: top pos_divide_less_eq)
  then have xu: "x / u \<le> of_int (2 ^ 53)" "of_int (- (2 ^ 53)) \<le> x / u"
    using upos by (simp_all add: abs_if divide_simps split: if_splits)
  have "n \<le> 2 ^ 53"
    unfolding n_def by (rule round_half_even_le [OF xu(1)])
  moreover have "- (2 ^ 53) \<le> n"
    unfolding n_def by (rule round_half_even_ge [OF xu(2)])
  ultimately have "\<bar>n\<bar> \<le> 2 ^ 53" by simp
  then have "(of_int \<bar>n\<bar> :: rat) \<le> of_int (2 ^ 53)" by (simp only: of_int_le_iff)
  then have "(of_int \<bar>n\<bar> :: rat) * u \<le> of_int (2 ^ 53) * u"
    using upos by (simp only: mult_right_mono less_imp_le)
  then have "\<bar>of_int n * u\<bar> \<le> 2 powi (e + 1)"
    using upos by (simp add: top abs_mult)
  moreover have "(2::rat) powi (e + 1) < 2 powi 1024"
  proof -
    have "e + 1 < 1024" using range by simp
    then show ?thesis by (simp only: pow2_less_iff)
  qed
  ultimately have "\<not> 2 powi 1024 \<le> \<bar>round_to_ulp x\<bar>"
    unfolding r by linarith
  then show ?thesis
    using x0 by (simp add: round_double_def Let_def r u_def n_def)
qed

lemma round_half_even_eval:
  assumes "of_int n - 1 / 2 < r" and "r < of_int n + 1 / 2"
  shows "round_half_even r = n"
proof -
  have "n \<le> round_half_even r"
  proof (cases "of_int n \<le> r")
    case True
    then show ?thesis by (rule round_half_even_ge)
  next
    case False
    then have "of_int (n - 1) + 1 / 2 < r" using assms(1) by simp
    then have "n - 1 + 1 \<le> round_half_even r" by (rule round_half_even_gt_half)
    then show ?thesis by simp
  qed
  moreover have "round_half_even r \<le> n"
  proof -
    have "\<bar>of_int (round_half_even r) - r\<bar> \<le> 1 / 2" by (rule round_half_even_error)
    then have "(of_int (round_half_even r) :: rat) < of_int n + 1"
      using assms(2) by linarith
    then have "(of_int (round_half_even r) :: rat) < of_int (n + 1)" by simp
    then have "round_half_even r < n + 1" by (simp only: of_int_less_iff)
    then show ?thesis by simp
  qed
  ultimately show ?thesis by simp
qed

lemma round_double_eval:
  assumes "2 powi e \<le> \<bar>x\<bar>" and "\<bar>x\<bar> < 2 powi (e + 1)"
    and "- 1022 \<le> e" and "e \<le> 1022"
    and "of_int n - 1 / 2 < x / 2 powi (e - 52)" and "x / 2 powi (e - 52) < of_int n + 1 / 2"
  shows "round_double x = Finite (of_int n * 2 powi (e - 52))"
  using round_double_normal [OF assms(1-4)] round_half_even_eval [OF assms(5,6)]
  by simp

text \<open>
  Rounding does not cross a double: if \<open>a\<close> is a positive normal double and \<open>a \<le> x\<close>,
  then \<open>x\<close> rounds to \<open>a\<close> or to a double that is at least one unit in the last place
  of \<open>a\<close> above it, and to such a double when \<open>x\<close> is above the midpoint.
\<close>

lemma round_to_ulp_grid:
  assumes a: "0 < a" and ea: "- 1022 \<le> floor_log2 a"
    and rep: "a = of_int K * 2 powi (floor_log2 a - 52)"
    and ax: "a \<le> x"
  shows "a \<le> round_to_ulp x"
    and "a < round_to_ulp x \<or> a + 2 powi (floor_log2 a - 52) / 2 < x
         \<Longrightarrow> a + 2 powi (floor_log2 a - 52) \<le> round_to_ulp x"
proof -
  define ua where "ua = (2::rat) powi (floor_log2 a - 52)"
  define n where "n = round_half_even (x / ulp x)"
  have r: "round_to_ulp x = of_int n * ulp x" by (simp add: round_to_ulp_def n_def)
  have x: "0 < x" using a ax by linarith
  have uapos: "0 < ua" by (simp add: ua_def)
  have upos: "0 < ulp x" by (rule ulp_pos)
  have "(2::rat) powi (floor_log2 a) < 2 powi (floor_log2 x + 1)"
    using floor_log2_bounds(1) [OF a] floor_log2_bounds(2) [OF x] ax by linarith
  then have ex: "floor_log2 a \<le> floor_log2 x"
    by (simp add: pow2_less_iff)
  then have "max (floor_log2 x) (- 1022) = floor_log2 x"
    using ea by linarith
  moreover have "\<bar>x\<bar> = x" using x by simp
  ultimately have u: "ulp x = 2 powi (floor_log2 x - 52)"
    by (simp only: ulp_def)
  have K: "of_int K * ua = a" using rep by (simp add: ua_def)
  have both: "a \<le> round_to_ulp x
     \<and> (a < round_to_ulp x \<or> a + ua / 2 < x \<longrightarrow> a + ua \<le> round_to_ulp x)"
  proof (cases "floor_log2 x = floor_log2 a")
    case True
    then have uu: "ulp x = ua" by (simp add: u ua_def)
    have "of_int K \<le> x / ua"
      using ax K uapos by (simp add: pos_le_divide_eq)
    then have "K \<le> n"
      unfolding n_def uu by (rule round_half_even_ge)
    then have "(of_int K :: rat) * ua \<le> of_int n * ua"
      using uapos by (simp add: mult_right_mono)
    then have i: "a \<le> round_to_ulp x" by (simp add: r uu K)
    have ii: "a + ua \<le> round_to_ulp x" if "a < round_to_ulp x"
    proof -
      from that have "of_int K * ua < of_int n * ua" by (simp add: r uu K)
      then have "(of_int K :: rat) < of_int n"
        using uapos by (simp only: mult_less_cancel_right_pos)
      then have "K + 1 \<le> n" by simp
      then have "(of_int (K + 1) :: rat) \<le> of_int n" by (simp only: of_int_le_iff)
      then have "(of_int (K + 1) :: rat) * ua \<le> of_int n * ua"
        using uapos by (simp only: mult_right_mono less_imp_le)
      then show ?thesis using K by (simp add: r uu distrib_right)
    qed
    have iii: "a + ua \<le> round_to_ulp x" if "a + ua / 2 < x"
    proof -
      from that have "(of_int K + 1 / 2) * ua < x"
        using K by (simp add: distrib_right)
      then have "of_int K + 1 / 2 < x / ua"
        using uapos by (simp add: pos_less_divide_eq)
      then have "K + 1 \<le> n"
        unfolding n_def uu by (rule round_half_even_gt_half)
      then have "(of_int (K + 1) :: rat) \<le> of_int n" by (simp only: of_int_le_iff)
      then have "(of_int (K + 1) :: rat) * ua \<le> of_int n * ua"
        using uapos by (simp only: mult_right_mono less_imp_le)
      then show ?thesis using K by (simp add: r uu distrib_right)
    qed
    from i ii iii show ?thesis by blast
  next
    case False
    with ex have lt: "floor_log2 a + 1 \<le> floor_log2 x" by linarith
    have "of_int (2 ^ 52) \<le> x / ulp x"
    proof -
      have "2 powi (floor_log2 x) \<le> x" by (rule floor_log2_bounds(1) [OF x])
      moreover have "(2::rat) powi (floor_log2 x) = 2 ^ 52 * ulp x"
        by (simp add: u pow2_diff)
      ultimately show ?thesis using upos by (simp add: pos_le_divide_eq)
    qed
    then have "2 ^ 52 \<le> n"
      unfolding n_def by (rule round_half_even_ge)
    then have "(of_int (2 ^ 52) :: rat) \<le> of_int n" by (simp only: of_int_le_iff)
    then have "(of_int (2 ^ 52) :: rat) * ulp x \<le> of_int n * ulp x"
      using upos by (simp only: mult_right_mono less_imp_le)
    then have "2 powi (floor_log2 x) \<le> round_to_ulp x"
      by (simp add: r u pow2_diff)
    moreover have "(2::rat) powi (floor_log2 a + 1) \<le> 2 powi (floor_log2 x)"
      using lt by (simp only: pow2_le_iff)
    ultimately have big: "2 powi (floor_log2 a + 1) \<le> round_to_ulp x" by linarith
    have top: "(2::rat) powi (floor_log2 a + 1) = of_int (2 ^ 53) * ua"
      by (simp add: ua_def pow2_diff pow2_add)
    have "of_int K * ua < of_int (2 ^ 53) * ua"
      using floor_log2_bounds(2) [OF a] K top by simp
    then have "(of_int K :: rat) < of_int (2 ^ 53)"
      using uapos by (simp only: mult_less_cancel_right_pos)
    then have "K < 2 ^ 53" by (simp only: of_int_less_iff)
    then have "K + 1 \<le> 2 ^ 53" by simp
    then have "(of_int (K + 1) :: rat) \<le> of_int (2 ^ 53)" by (simp only: of_int_le_iff)
    then have "(of_int (K + 1) :: rat) * ua \<le> of_int (2 ^ 53) * ua"
      using uapos by (simp only: mult_right_mono less_imp_le)
    then have "a + ua \<le> 2 powi (floor_log2 a + 1)"
      using K top by (simp add: distrib_right)
    with big have "a + ua \<le> round_to_ulp x" by linarith
    then show ?thesis using uapos by auto
  qed
  from both show "a \<le> round_to_ulp x" by blast
  from both show "a < round_to_ulp x \<or> a + 2 powi (floor_log2 a - 52) / 2 < x
         \<Longrightarrow> a + 2 powi (floor_log2 a - 52) \<le> round_to_ulp x"
    by (simp add: ua_def)
qed

text \<open>A positive integer below \<open>2^53\<close> is a double.\<close>

lemma int_exponent:
  assumes "0 < n" and "n < 2 ^ 53"
  shows "0 \<le> floor_log2 (of_int n)" and "floor_log2 (of_int n) \<le> 52"
proof -
  have pos: "(0::rat) < of_int n" using assms(1) by simp
  note b = floor_log2_bounds [OF pos]
  have "(1::rat) \<le> of_int n" using assms(1) by simp
  then have "(2::rat) powi 0 < 2 powi (floor_log2 (of_int n) + 1)"
    using b(2) by simp
  then have "0 < floor_log2 (of_int n) + 1" by (simp only: pow2_less_iff)
  then show "0 \<le> floor_log2 (of_int n)" by simp
  have "(of_int n :: rat) < of_int (2 ^ 53)" using assms(2) by (simp only: of_int_less_iff)
  then have "(2::rat) powi (floor_log2 (of_int n)) < 2 powi 53"
    using b(1) by simp
  then have "floor_log2 (of_int n) < 53" by (simp only: pow2_less_iff)
  then show "floor_log2 (of_int n) \<le> 52" by simp
qed

lemma int_rep:
  assumes "0 < n" and "n < 2 ^ 53"
  shows "(of_int n :: rat)
           = of_int (n * 2 ^ nat (52 - floor_log2 (of_int n)))
             * 2 powi (floor_log2 (of_int n) - 52)"
proof -
  define e where "e = floor_log2 (of_int n)"
  have e: "0 \<le> e" "e \<le> 52" using int_exponent [OF assms] by (simp_all add: e_def)
  have "(2::rat) ^ nat (52 - e) = 2 powi (52 - e)"
    using e by (simp add: power_int_def)
  then have "(2::rat) ^ nat (52 - e) * 2 powi (e - 52) = 2 powi ((52 - e) + (e - 52))"
    by (simp only: pow2_add)
  then have "(2::rat) ^ nat (52 - e) * 2 powi (e - 52) = 1" by simp
  then show ?thesis
    by (simp add: e_def [symmetric] mult.assoc)
qed

lemma int_ulp:
  assumes "0 < n" and "n < 2 ^ 53"
  shows "ulp (of_int n) = 2 powi (floor_log2 (of_int n) - 52)"
proof -
  have "max (floor_log2 (of_int n)) (- 1022) = floor_log2 (of_int n)"
    using int_exponent(1) [OF assms] by linarith
  moreover have "\<bar>of_int n :: rat\<bar> = of_int n" using assms(1) by simp
  ultimately show ?thesis by (simp only: ulp_def)
qed

lemma round_double_int:
  assumes "0 < n" and "n < 2 ^ 53"
  shows "round_double (of_int n) = Finite (of_int n)"
proof -
  have "(of_int n :: rat)
          = of_int (n * 2 ^ nat (52 - floor_log2 (of_int n))) * ulp (of_int n)"
    using int_rep [OF assms] by (simp only: int_ulp [OF assms])
  then have same: "round_to_ulp (of_int n) = of_int n" by (rule round_to_ulp_fixed)
  have "(of_int n :: rat) < of_int (2 ^ 53)" using assms(2) by (simp only: of_int_less_iff)
  then have "\<bar>of_int n :: rat\<bar> < 2 ^ 1024" using assms(1) by simp
  then show ?thesis
    using assms(1) by (simp add: round_double_def Let_def same)
qed

lemma round_double_numeral:
  "numeral k < (2::int) ^ 53 \<Longrightarrow> round_double (numeral k) = Finite (numeral k)"
  using round_double_int [of "numeral k"] by simp

text \<open>The double after 100 is \<open>100 + 2^-46\<close>.\<close>

lemma double_above_100:
  assumes "is_double d" and "100 < d"
  shows "100 + 1 / 2 ^ 46 \<le> d"
proof -
  have e: "floor_log2 100 = 6"
    by (rule floor_log2_unique) simp_all
  have u: "(2::rat) powi (floor_log2 100 - 52) = 1 / 2 ^ 46"
    by (simp add: e power_int_minus_divide)
  have rep: "(100::rat) = of_int (100 * 2 ^ 46) * 2 powi (floor_log2 100 - 52)"
    by (simp add: u)
  have d0: "d \<noteq> 0" using assms(2) by simp
  have "round_to_ulp d = d"
    using assms round_double_cases [OF d0] by (auto simp add: is_double_def)
  then have "100 < round_to_ulp d" using assms(2) by simp
  then have "100 + 2 powi (floor_log2 100 - 52) \<le> round_to_ulp d"
    using round_to_ulp_grid(2) [of 100 "100 * 2 ^ 46" d] rep e assms(2) by simp
  then show ?thesis using \<open>round_to_ulp d = d\<close> by (simp add: u)
qed

section \<open>Properties of the pricing functions\<close>

lemma calculateMonthlyPrice_ge_base:
  "basePriceMonthly PRICING_CONFIG \<le> calculateMonthlyPrice b"
  by (simp add: calculateMonthlyPrice_def PRICING_CONFIG_def Let_def)

lemma calculateMonthlyPrice_pos: "0 < calculateMonthlyPrice b"
proof -
  have "(0::rat) < basePriceMonthly PRICING_CONFIG"
    by (simp add: PRICING_CONFIG_def)
  then show ?thesis
    using calculateMonthlyPrice_ge_base [of b] by linarith
qed

lemma string_of_int_minBranches: "string_of_int (minBranches PRICING_CONFIG) = ''1''"
  by code_simp

subsection \<open>Per-branch price of the breakdown\<close>

text \<open>
  For a branch count of at least one, the per-branch monthly price is the monthly total
  divided by the branch count, which is then also the count clamped to \<open>minBranches\<close>,
  rounded to a double.
\<close>

lemma getPricingBreakdown_perBranch_valid:
  "1 \<le> b \<Longrightarrow>
   m_perBranch (monthly (getPricingBreakdown b))
     = round_double (calculateMonthlyPrice b / of_int (max (minBranches PRICING_CONFIG) b))"
  by (simp add: getPricingBreakdown_def Let_def PRICING_CONFIG_def max_def)

lemma per_branch_at_minus_2: "round_double (- (299 / 2)) = Finite (- (299 / 2))"
proof -
  have "round_double (- (299 / 2)) = Finite (of_int (- 5260063627280384) * 2 powi (7 - 52))"
    by (rule round_double_eval [where e = "7" and n = "(- 5260063627280384)"]) simp_all
  then show ?thesis by simp
qed

text \<open>
  C1. The claim is that the per-branch price divides by the branch count clamped to
  \<open>minBranches\<close>, so that a branch count of zero yields no division by zero. The source
  divides the monthly total by the branch count as passed: at \<open>0\<close> the monthly total is
  the clamped \<open>299\<close> and the quotient is \<^verbatim>\<open>Infinity\<close>; at \<open>-2\<close> the quotient is
  \<open>-149.5\<close> and not \<open>299\<close>.
\<close>

theorem C1_perBranch_unguarded:
  "m_total (monthly (getPricingBreakdown 0)) = 299
   \<and> m_perBranch (monthly (getPricingBreakdown 0)) = PosInfinity
   \<and> m_perBranch (monthly (getPricingBreakdown (- 2))) = Finite (- (299 / 2))"
  using per_branch_at_minus_2
  by (simp add: getPricingBreakdown_def calculateMonthlyPrice_def PRICING_CONFIG_def
        inf_of_sign_def Let_def)

subsection \<open>Monthly price\<close>

text \<open>
  C2. For every integer \<open>b \<ge> 1\<close> the monthly price is the base price plus \<open>b - 1\<close> times
  the price of an additional branch, and it is at least the base price; for every
  integer \<open>b\<close> below \<open>minBranches\<close> the monthly price is that of \<open>minBranches\<close>.
\<close>

theorem C2_monthly_price:
  "(1 \<le> b \<longrightarrow>
      calculateMonthlyPrice b
        = basePriceMonthly PRICING_CONFIG
          + of_int (b - 1) * additionalBranchPrice PRICING_CONFIG
      \<and> basePriceMonthly PRICING_CONFIG \<le> calculateMonthlyPrice b)
   \<and> (b < minBranches PRICING_CONFIG \<longrightarrow>
        calculateMonthlyPrice b = calculateMonthlyPrice (minBranches PRICING_CONFIG))"
  by (simp add: calculateMonthlyPrice_def PRICING_CONFIG_def Let_def)

text \<open>C2 at five branches (first part) and at zero branches (second part).\<close>

theorem C2_monthly_price_witness:
  "(1::int) \<le> 5
   \<and> calculateMonthlyPrice 5 = 299 + of_int (5 - 1) * 99
   \<and> 299 \<le> calculateMonthlyPrice 5
   \<and> (0::int) < minBranches PRICING_CONFIG
   \<and> calculateMonthlyPrice 0 = calculateMonthlyPrice 1"
  using C2_monthly_price [of 5] C2_monthly_price [of 0]
  by (simp add: PRICING_CONFIG_def)

subsection \<open>Yearly price\<close>

text \<open>
  For up to \<open>10^10\<close> branches, twelve monthly prices are an integer \<open>n\<close> from 3588 on
  with \<open>100 * n\<close> below \<open>2^53\<close>, so the first product of the yearly price is exact.
\<close>

lemma yearly_int:
  assumes "b \<le> 10 ^ 10"
  shows "\<exists>n. calculateMonthlyPrice b * 12 = of_int n \<and> 3588 \<le> n \<and> n * 100 < 2 ^ 53"
proof (cases "b < 1")
  case True
  then have "calculateMonthlyPrice b * 12 = of_int 3588"
    by (simp add: calculateMonthlyPrice_def PRICING_CONFIG_def)
  then show ?thesis by (intro exI [of _ 3588]) simp
next
  case False
  then have "calculateMonthlyPrice b * 12 = of_int ((299 + (b - 1) * 99) * 12)"
    by (simp add: calculateMonthlyPrice_def PRICING_CONFIG_def Let_def max_def)
  moreover have "3588 \<le> (299 + (b - 1) * 99) * 12" using False by simp
  moreover have "(299 + (b - 1) * 99) * 12 * 100 < 2 ^ 53" using assms by simp
  ultimately show ?thesis by blast
qed

lemma calculateYearlyPrice_exact_product:
  assumes "calculateMonthlyPrice b * 12 = of_int n" and "0 < n" and "n < 2 ^ 53"
  shows "calculateYearlyPrice b (Some d)
           = dbl_sub (Finite (of_int n)) (dbl_div (dbl_mul (Finite (of_int n)) d) (Finite 100))"
  using round_double_int [OF assms(2,3)] assms(1)
  by (simp add: calculateYearlyPrice_def Let_def)

text \<open>A discount above 100: the amount taken off exceeds the yearly price.\<close>

lemma negative_rounds_negative:
  fixes r x u h :: rat
  assumes "r - x \<le> u / 2" and "u \<le> - x / 2 ^ 52 + h" and "h \<le> 1 / 2 ^ 60"
    and "x \<le> - (1 / 2 ^ 52)"
  shows "r < 0"
  using assms by simp

lemma yearly_negative:
  assumes n: "3588 \<le> n" "n * 100 < 2 ^ 53" and d: "is_double d" "100 < d"
  shows "js_less
           (dbl_sub (Finite (of_int n))
              (dbl_div (dbl_mul (Finite (of_int n)) (Finite d)) (Finite 100)))
           (Finite 0)"
proof -
  define y :: rat where "y = of_int n"
  define a :: rat where "a = of_int (n * 100)"
  define U :: rat where "U = 2 powi (floor_log2 a - 52)"
  define uy :: rat where "uy = 2 powi (floor_log2 y - 52)"
  have n0: "0 < n" "n < 2 ^ 53" and a0: "0 < n * 100" using n by simp_all
  have ypos: "0 < y" using n0 by (simp add: y_def)
  have y1: "1 \<le> y" using n by (simp add: y_def)
  have ay: "a = 100 * y" by (simp add: a_def y_def)
  have apos: "0 < a" using ypos by (simp add: ay)
  have dlow: "100 + 1 / 2 ^ 46 \<le> d" by (rule double_above_100 [OF d])
  have Upos: "0 < U" and uypos: "0 < uy" by (simp_all add: U_def uy_def)
  have "2 powi (floor_log2 a) \<le> a" by (rule floor_log2_bounds(1) [OF apos])
  then have Ule: "U \<le> a / 2 ^ 52"
    by (simp add: U_def pow2_diff divide_right_mono)
  have "y * (100 + 1 / 2 ^ 46) \<le> y * d"
    using dlow ypos by (simp only: mult_left_mono less_imp_le)
  then have X1: "a + y / 2 ^ 46 \<le> y * d"
    by (simp add: ay distrib_left)
  have "U / 2 < y / 2 ^ 46"
    using Ule ypos by (simp add: ay)
  then have mid1: "a + U / 2 < y * d"
    using X1 by linarith
  have Xpos: "0 < y * d" using X1 apos ypos by (simp add: ay)
  have P: "a + U \<le> round_to_ulp (y * d)"
  proof -
    have e: "- 1022 \<le> floor_log2 a"
      using int_exponent(1) [OF a0 n(2)] by (simp add: a_def)
    have r: "a = of_int (n * 100 * 2 ^ nat (52 - floor_log2 a)) * 2 powi (floor_log2 a - 52)"
      unfolding a_def by (rule int_rep [OF a0 n(2)])
    have l: "a \<le> y * d" using X1 ypos by simp
    have m: "a < round_to_ulp (y * d) \<or> a + 2 powi (floor_log2 a - 52) / 2 < y * d"
      using mid1 by (simp add: U_def)
    show ?thesis
      unfolding U_def by (rule round_to_ulp_grid(2) [OF apos e r l m])
  qed
  have "(0::rat) < 2 powi (floor_log2 y)" by simp
  then have "64 * 2 powi (floor_log2 y) \<le> 100 * y"
    using floor_log2_bounds(1) [OF ypos] by linarith
  moreover have "a < 2 powi (floor_log2 a + 1)" by (rule floor_log2_bounds(2) [OF apos])
  moreover have "(64::rat) * 2 powi (floor_log2 y) = 2 powi (floor_log2 y + 6)"
    by (simp add: pow2_add)
  ultimately have "(2::rat) powi (floor_log2 y + 6) < 2 powi (floor_log2 a + 1)"
    by (simp add: ay)
  then have "floor_log2 y + 6 < floor_log2 a + 1" by (simp only: pow2_less_iff)
  then have "(floor_log2 y - 52) + 6 \<le> floor_log2 a - 52" by simp
  then have "(2::rat) powi ((floor_log2 y - 52) + 6) \<le> 2 powi (floor_log2 a - 52)"
    by (simp only: pow2_le_iff)
  moreover have "(2::rat) powi ((floor_log2 y - 52) + 6) = 64 * uy"
  proof -
    have "(2::rat) powi ((floor_log2 y - 52) + 6) = 2 powi (floor_log2 y - 52) * 2 powi 6"
      by (rule pow2_add)
    also have "\<dots> = 64 * uy" by (simp add: uy_def)
    finally show ?thesis .
  qed
  ultimately have U64: "64 * uy \<le> U"
    by (simp only: U_def)
  have ey: "0 \<le> floor_log2 y"
    using int_exponent(1) [OF n0] by (simp add: y_def)
  then have "- 52 \<le> floor_log2 y - 52" by simp
  then have "(2::rat) powi (- 52) \<le> 2 powi (floor_log2 y - 52)"
    by (simp only: pow2_le_iff)
  then have uylow: "1 / 2 ^ 52 \<le> uy"
    by (simp add: uy_def power_int_minus_divide)
  have Q: "y + uy \<le> round_to_ulp (p / 100)" if p: "a + U \<le> p" for p
  proof -
    have lo: "y + U / 100 \<le> p / 100" using p by (simp add: ay)
    have e: "- 1022 \<le> floor_log2 y" using ey by simp
    have r: "y = of_int (n * 2 ^ nat (52 - floor_log2 y)) * 2 powi (floor_log2 y - 52)"
      unfolding y_def by (rule int_rep [OF n0])
    have l: "y \<le> p / 100" using lo Upos by linarith
    have "y + uy / 2 < p / 100"
      using lo U64 uypos by linarith
    then have m: "y < round_to_ulp (p / 100) \<or> y + 2 powi (floor_log2 y - 52) / 2 < p / 100"
      by (simp add: uy_def)
    show ?thesis
      unfolding uy_def by (rule round_to_ulp_grid(2) [OF ypos e r l m])
  qed
  have R: "js_less (round_double (y - q)) (Finite 0)" if q: "y + uy \<le> q" for q
  proof -
    define x where "x = y - q"
    have xneg: "x \<le> - (1 / 2 ^ 52)" using q uylow by (simp add: x_def)
    then have x0: "x \<noteq> 0" by auto
    have xlt: "x < 0" using xneg by (rule le_less_trans) simp
    have "round_to_ulp x - x \<le> ulp x / 2"
      using round_to_ulp_error [of x] by linarith
    moreover have "ulp x \<le> - x / 2 ^ 52 + 1 / 2 ^ 1074"
      using ulp_le [OF x0] xlt by (simp add: abs_of_neg)
    moreover have "(1::rat) / 2 ^ 1074 \<le> 1 / 2 ^ 60" by simp
    ultimately have "round_to_ulp x < 0"
      using xneg by (intro negative_rounds_negative [where u = "ulp x" and x = x])
    then show ?thesis
      using round_double_cases [OF x0] xneg by (auto simp add: x_def [symmetric])
  qed
  have X0: "y * d \<noteq> 0" using Xpos by linarith
  from round_double_cases [OF X0]
  have "js_less (dbl_sub (Finite y) (dbl_div (dbl_mul (Finite y) (Finite d)) (Finite 100)))
          (Finite 0)"
  proof (elim disjE conjE)
    assume f: "round_double (y * d) = Finite (round_to_ulp (y * d))"
    define p where "p = round_to_ulp (y * d)"
    have pb: "a + U \<le> p" using P by (simp add: p_def)
    then have p0: "p / 100 \<noteq> 0" using apos Upos by simp
    have ppos: "0 < p / 100" using pb apos Upos by simp
    from round_double_cases [OF p0] show ?thesis
    proof (elim disjE conjE)
      assume "round_double (p / 100) = Finite (round_to_ulp (p / 100))"
      then show ?thesis
        using R [OF Q [OF pb]] by (simp add: f p_def [symmetric])
    next
      assume "round_double (p / 100) = PosInfinity"
      then show ?thesis by (simp add: f p_def [symmetric])
    next
      assume "p / 100 < 0"
      with ppos show ?thesis by simp
    qed
  next
    assume "round_double (y * d) = PosInfinity"
    then show ?thesis by (simp add: inf_of_sign_def)
  next
    assume "y * d < 0"
    with Xpos show ?thesis by simp
  qed
  then show ?thesis by (simp add: y_def)
qed

text \<open>A discount below 0: the amount taken off is not positive.\<close>

lemma round_double_nonpos:
  assumes "x \<le> 0"
  shows "round_double x = NegInfinity \<or> (\<exists>q. q \<le> 0 \<and> round_double x = Finite q)"
proof (cases "x = 0")
  case True
  then show ?thesis by (simp add: round_double_def)
next
  case False
  then show ?thesis
    using round_double_cases [OF False] round_to_ulp_nonpos [OF assms] assms by auto
qed

lemma yearly_not_below:
  assumes n: "0 < n" "n < 2 ^ 53" and d: "d < 0"
  shows "js_le (Finite (of_int n))
           (dbl_sub (Finite (of_int n))
              (dbl_div (dbl_mul (Finite (of_int n)) (Finite d)) (Finite 100)))"
proof -
  define y :: rat where "y = of_int n"
  have ypos: "0 < y" using n by (simp add: y_def)
  have R: "js_le (Finite y) (round_double (y - q))" if q: "q \<le> 0" for q
  proof -
    have x0: "y - q \<noteq> 0" and xpos: "0 < y - q" using q ypos by simp_all
    have e: "- 1022 \<le> floor_log2 y"
      using int_exponent(1) [OF n] by (simp add: y_def)
    have r: "y = of_int (n * 2 ^ nat (52 - floor_log2 y)) * 2 powi (floor_log2 y - 52)"
      unfolding y_def by (rule int_rep [OF n])
    have l: "y \<le> y - q" using q by simp
    have "y \<le> round_to_ulp (y - q)"
      by (rule round_to_ulp_grid(1) [OF ypos e r l])
    then show ?thesis
      using round_double_cases [OF x0] xpos by auto
  qed
  have D: "js_le (Finite y) (dbl_sub (Finite y) (round_double (p / 100)))" if p: "p \<le> 0" for p
  proof -
    have "p / 100 \<le> 0" using p by simp
    from round_double_nonpos [OF this] show ?thesis
      using R by auto
  qed
  have "y * d \<le> 0" using ypos d by (simp add: mult_le_0_iff)
  from round_double_nonpos [OF this]
  have "js_le (Finite y) (dbl_sub (Finite y) (dbl_div (dbl_mul (Finite y) (Finite d)) (Finite 100)))"
    using D by (auto simp add: inf_of_sign_def)
  then show ?thesis by (simp add: y_def)
qed

text \<open>
  The discount passes through the formula: the result is the real number
  \<open>y - y * d / 100\<close> up to three roundings.
\<close>

lemma rounding_sum:
  fixes A B C a y h :: rat
  assumes "A \<le> C / 2 ^ 53 + h" and "B \<le> 3 * a / 2 ^ 53 + 3 * h" and "C \<le> y + 2 * a + 1"
    and "1 \<le> y" and "0 \<le> h" and "h \<le> 1 / 2 ^ 60" and "0 \<le> a"
  shows "A + B \<le> (y + a) / 2 ^ 50"
  using assms by simp

lemma three_roundings:
  fixes y X p q r h :: rat
  assumes pe: "\<bar>p - X\<bar> \<le> \<bar>X\<bar> / 2 ^ 53 + h"
    and qe: "\<bar>q - p / 100\<bar> \<le> \<bar>p / 100\<bar> / 2 ^ 53 + h"
    and re: "\<bar>r - (y - q)\<bar> \<le> \<bar>y - q\<bar> / 2 ^ 53 + h"
    and y1: "1 \<le> y" and h: "0 \<le> h" "h \<le> 1 / 2 ^ 60"
  shows "\<bar>r - (y - X / 100)\<bar> \<le> (y + \<bar>X\<bar> / 100) / 2 ^ 50"
proof -
  define x where "x = X / 100"
  define p' where "p' = p / 100"
  have X: "X = 100 * x" and p: "p = 100 * p'" by (simp_all add: x_def p'_def)
  have pe': "\<bar>p' - x\<bar> \<le> \<bar>x\<bar> / 2 ^ 53 + h"
    using pe h unfolding X p by simp
  have qe': "\<bar>q - p'\<bar> \<le> \<bar>p'\<bar> / 2 ^ 53 + h"
    using qe by (simp add: p'_def)
  have p1: "\<bar>p'\<bar> \<le> 2 * \<bar>x\<bar> + h" using pe' by simp
  have q1: "\<bar>q - x\<bar> \<le> 3 * \<bar>x\<bar> / 2 ^ 53 + 3 * h"
    using pe' qe' p1 h by simp
  have q2: "\<bar>y - q\<bar> \<le> y + 2 * \<bar>x\<bar> + 1" using q1 y1 h by simp
  have tri: "\<bar>r - (y - x)\<bar> \<le> \<bar>r - (y - q)\<bar> + \<bar>q - x\<bar>" by linarith
  have "\<bar>r - (y - q)\<bar> + \<bar>q - x\<bar> \<le> (y + \<bar>x\<bar>) / 2 ^ 50"
    using re q1 q2 y1 h by (intro rounding_sum [where C = "\<bar>y - q\<bar>" and h = h]) simp_all
  with tri have "\<bar>r - (y - x)\<bar> \<le> (y + \<bar>x\<bar>) / 2 ^ 50" by linarith
  then show ?thesis by (simp add: x_def)
qed

lemma yearly_error:
  assumes n: "0 < n" "n < 2 ^ 53" and d: "\<bar>d\<bar> \<le> 2 ^ 900"
  shows "\<exists>v. dbl_sub (Finite (of_int n))
                (dbl_div (dbl_mul (Finite (of_int n)) (Finite d)) (Finite 100)) = Finite v
             \<and> \<bar>v - (of_int n - of_int n * d / 100)\<bar>
                 \<le> (of_int n + \<bar>of_int n * d\<bar> / 100) / 2 ^ 50"
proof -
  define y :: rat where "y = of_int n"
  define X where "X = y * d"
  have y1: "1 \<le> y" using n by (simp add: y_def)
  have "(of_int n :: rat) < of_int (2 ^ 53)" using n(2) by (simp only: of_int_less_iff)
  then have yhi: "y \<le> 2 ^ 53" by (simp add: y_def)
  have "\<bar>X\<bar> = y * \<bar>d\<bar>" using y1 by (simp add: X_def abs_mult)
  also have "\<dots> \<le> 2 ^ 53 * 2 ^ 900"
    using yhi d y1 by (intro mult_mono) simp_all
  finally have Xb: "\<bar>X\<bar> \<le> 2 ^ 953" by simp
  then have "\<bar>X\<bar> \<le> 2 ^ 1023" by simp
  from round_double_error [OF this] obtain p
    where p: "round_double X = Finite p" and pe: "\<bar>p - X\<bar> \<le> \<bar>X\<bar> / 2 ^ 53 + 1 / 2 ^ 1075"
    by blast
  have pb: "\<bar>p\<bar> \<le> 2 ^ 954" using pe Xb by simp
  then have "\<bar>p / 100\<bar> \<le> 2 ^ 1023" by simp
  from round_double_error [OF this] obtain q
    where q: "round_double (p / 100) = Finite q"
      and qe: "\<bar>q - p / 100\<bar> \<le> \<bar>p / 100\<bar> / 2 ^ 53 + 1 / 2 ^ 1075"
    by blast
  have qb: "\<bar>q\<bar> \<le> 2 ^ 954" using qe pb by simp
  then have "\<bar>y - q\<bar> \<le> 2 ^ 1023" using yhi y1 by simp
  from round_double_error [OF this] obtain r
    where r: "round_double (y - q) = Finite r"
      and re: "\<bar>r - (y - q)\<bar> \<le> \<bar>y - q\<bar> / 2 ^ 53 + 1 / 2 ^ 1075"
    by blast
  have small: "(0::rat) \<le> 1 / 2 ^ 1075" "(1::rat) / 2 ^ 1075 \<le> 1 / 2 ^ 60"
    by simp_all
  have "\<bar>r - (y - X / 100)\<bar> \<le> (y + \<bar>X\<bar> / 100) / 2 ^ 50"
    by (rule three_roundings [OF pe qe re y1 small])
  moreover have "dbl_sub (Finite y) (dbl_div (dbl_mul (Finite y) (Finite d)) (Finite 100))
                   = Finite r"
    by (simp add: X_def [symmetric] p q r)
  ultimately show ?thesis by (simp add: y_def X_def)
qed

subsection \<open>The yearly price at given inputs\<close>

text \<open>
  Each rounding is evaluated with its exponent and its rounded significand; the fractions
  are the exact values of the doubles.
\<close>

lemma yearly_1_quotient: "round_double (15249 / 25) = Finite (670658112478249 / 1099511627776)"
proof -
  have "round_double (15249 / 25) = Finite (of_int 5365264899825992 * 2 powi (9 - 52))"
    by (rule round_double_eval [where e = "9" and n = "5365264899825992"]) simp_all
  then show ?thesis by simp
qed

lemma yearly_1_difference: "round_double (3274389607982039 / 1099511627776) = Finite (3274389607982039 / 1099511627776)"
proof -
  have "round_double (3274389607982039 / 1099511627776) = Finite (of_int 6548779215964078 * 2 powi (11 - 52))"
    by (rule round_double_eval [where e = "11" and n = "6548779215964078"]) simp_all
  then show ?thesis by simp
qed

lemma yearly_1: "calculateYearlyPrice 1 None = Finite (3274389607982039 / 1099511627776)"
  by (simp add: calculateYearlyPrice_def Let_def calculateMonthlyPrice_def PRICING_CONFIG_def
        round_double_numeral yearly_1_quotient yearly_1_difference)

lemma yearly_5_quotient: "round_double (7089 / 5) = Finite (6235550343443251 / 4398046511104)"
proof -
  have "round_double (7089 / 5) = Finite (of_int 6235550343443251 * 2 powi (10 - 52))"
    by (rule round_double_eval [where e = "10" and n = "6235550343443251"]) simp_all
  then show ?thesis by simp
qed

lemma yearly_5_difference: "round_double (30444157559164109 / 4398046511104) = Finite (7611039389791027 / 1099511627776)"
proof -
  have "round_double (30444157559164109 / 4398046511104) = Finite (of_int 7611039389791027 * 2 powi (12 - 52))"
    by (rule round_double_eval [where e = "12" and n = "7611039389791027"]) simp_all
  then show ?thesis by simp
qed

lemma yearly_5: "calculateYearlyPrice 5 None = Finite (7611039389791027 / 1099511627776)"
  by (simp add: calculateYearlyPrice_def Let_def calculateMonthlyPrice_def PRICING_CONFIG_def
        round_double_numeral yearly_5_quotient yearly_5_difference)

lemma yearly_7_quotient: "round_double (45543 / 25) = Finite (8012009290208379 / 4398046511104)"
proof -
  have "round_double (45543 / 25) = Finite (of_int 8012009290208379 * 2 powi (10 - 52))"
    by (rule round_double_eval [where e = "10" and n = "8012009290208379"]) simp_all
  then show ?thesis by simp
qed

lemma yearly_7_difference: "round_double (39117457122782085 / 4398046511104) = Finite (4889682140347761 / 549755813888)"
proof -
  have "round_double (39117457122782085 / 4398046511104) = Finite (of_int 4889682140347761 * 2 powi (13 - 52))"
    by (rule round_double_eval [where e = "13" and n = "4889682140347761"]) simp_all
  then show ?thesis by simp
qed

lemma yearly_7: "calculateYearlyPrice 7 None = Finite (4889682140347761 / 549755813888)"
  by (simp add: calculateYearlyPrice_def Let_def calculateMonthlyPrice_def PRICING_CONFIG_def
        round_double_numeral yearly_7_quotient yearly_7_difference)

lemma yearly_3_tiny_product: "round_double (- (1491 / 288230376151711744)) = Finite (- (1491 / 288230376151711744))"
proof -
  have "round_double (- (1491 / 288230376151711744)) = Finite (of_int (- 6557487348056064) * 2 powi ((- 48) - 52))"
    by (rule round_double_eval [where e = "(- 48)" and n = "(- 6557487348056064)"]) simp_all
  then show ?thesis by simp
qed

lemma yearly_3_tiny_quotient: "round_double (- (1491 / 28823037615171174400)) = Finite (- (4196791902755881 / 81129638414606681695789005144064))"
proof -
  have "round_double (- (1491 / 28823037615171174400)) = Finite (of_int (- 8393583805511762) * 2 powi ((- 55) - 52))"
    by (rule round_double_eval [where e = "(- 55)" and n = "(- 8393583805511762)"]) simp_all
  then show ?thesis by simp
qed

lemma yearly_3_tiny_difference: "round_double (483857163504714249637882418581953577 / 81129638414606681695789005144064) = Finite (5964)"
proof -
  have "round_double (483857163504714249637882418581953577 / 81129638414606681695789005144064) = Finite (of_int 6557487348056064 * 2 powi (12 - 52))"
    by (rule round_double_eval [where e = "12" and n = "6557487348056064"]) simp_all
  then show ?thesis by simp
qed

lemma yearly_3_tiny: "calculateYearlyPrice 3 (Some (Finite (- (1 / 2 ^ 60)))) = Finite (5964)"
  by (simp add: calculateYearlyPrice_def Let_def calculateMonthlyPrice_def PRICING_CONFIG_def
        round_double_numeral yearly_3_tiny_product yearly_3_tiny_quotient yearly_3_tiny_difference)

lemma literal_2978_04: "round_double (74451 / 25) = Finite (3274389607982039 / 1099511627776)"
proof -
  have "round_double (74451 / 25) = Finite (of_int 6548779215964078 * 2 powi (11 - 52))"
    by (rule round_double_eval [where e = "11" and n = "6548779215964078"]) simp_all
  then show ?thesis by simp
qed

lemma literal_6922_20: "round_double (34611 / 5) = Finite (7611039389791027 / 1099511627776)"
proof -
  have "round_double (34611 / 5) = Finite (of_int 7611039389791027 * 2 powi (12 - 52))"
    by (rule round_double_eval [where e = "12" and n = "7611039389791027"]) simp_all
  then show ?thesis by simp
qed

lemma literal_6920_20: "round_double (34601 / 5) = Finite (7608840366535475 / 1099511627776)"
proof -
  have "round_double (34601 / 5) = Finite (of_int 7608840366535475 * 2 powi (12 - 52))"
    by (rule round_double_eval [where e = "12" and n = "7608840366535475"]) simp_all
  then show ?thesis by simp
qed

lemma closed_form_rate: "round_double (17 / 100) = Finite (6124895493223875 / 36028797018963968)"
proof -
  have "round_double (17 / 100) = Finite (of_int 6124895493223875 * 2 powi ((- 3) - 52))"
    by (rule round_double_eval [where e = "(- 3)" and n = "6124895493223875"]) simp_all
  then show ?thesis by simp
qed

lemma closed_form_factor: "round_double (29903901525740093 / 36028797018963968) = Finite (7475975381435023 / 9007199254740992)"
proof -
  have "round_double (29903901525740093 / 36028797018963968) = Finite (of_int 7475975381435023 * 2 powi ((- 1) - 52))"
    by (rule round_double_eval [where e = "(- 1)" and n = "7475975381435023"]) simp_all
  then show ?thesis by simp
qed

lemma closed_form_7: "round_double (20028138046864426617 / 2251799813685248) = Finite (305605133771735 / 34359738368)"
proof -
  have "round_double (20028138046864426617 / 2251799813685248) = Finite (of_int 4889682140347760 * 2 powi (13 - 52))"
    by (rule round_double_eval [where e = "13" and n = "4889682140347760"]) simp_all
  then show ?thesis by simp
qed

lemma closed_form_yearly_7:
  "dbl_mul (dbl_mul (Finite (calculateMonthlyPrice 7)) (Finite 12))
     (dbl_sub (Finite 1) (dbl_div (Finite 17) (Finite 100))) = Finite (305605133771735 / 34359738368)"
  by (simp add: calculateMonthlyPrice_def PRICING_CONFIG_def round_double_numeral
        closed_form_rate closed_form_factor closed_form_7)

subsection \<open>The yearly price and the closed formula\<close>

text \<open>
  C3, as stated, equates the yearly price with the monthly price times 12 times
  \<open>1 - discount / 100\<close>. The source subtracts the rounded discount amount from the
  yearly price. At seven branches and the default discount the source returns the double
  nearest to 8894.28, while the closed formula, computed in doubles, gives the double
  below it; and the real number 8894.28 is not a double at all.
\<close>

theorem C3_closed_formula_counterexample:
  "calculateYearlyPrice 7 None
     \<noteq> dbl_mul (dbl_mul (Finite (calculateMonthlyPrice 7)) (Finite 12))
         (dbl_sub (Finite 1) (dbl_div (Finite 17) (Finite 100)))
   \<and> calculateYearlyPrice 7 None \<noteq> Finite (calculateMonthlyPrice 7 * 12 * (1 - 17 / 100))"
  using yearly_7 closed_form_yearly_7
  by (simp add: calculateMonthlyPrice_def PRICING_CONFIG_def)

text \<open>
  C3, amended. For every integer branch count \<open>b\<close> up to \<open>10^10\<close> and every discount
  \<open>d\<close> between 0 and 100, the yearly price is the yearly amount \<open>monthly * 12\<close>, which
  is exact, minus the rounded quotient by 100 of its rounded product with \<open>d\<close>; it is a
  finite double that differs from the real number \<open>monthly * 12 * (1 - d / 100)\<close> by at
  most \<open>2^-49\<close> times \<open>monthly * 12\<close>; and a call without a discount uses 17.
\<close>

theorem C3_yearly_price:
  assumes "b \<le> 10 ^ 10" and "0 \<le> d" and "d \<le> 100"
  shows "calculateYearlyPrice b (Some (Finite d))
           = dbl_sub (Finite (calculateMonthlyPrice b * 12))
               (dbl_div (dbl_mul (Finite (calculateMonthlyPrice b * 12)) (Finite d))
                  (Finite 100))
         \<and> (case calculateYearlyPrice b (Some (Finite d)) of
              Finite v \<Rightarrow>
                \<bar>v - calculateMonthlyPrice b * 12 * (1 - d / 100)\<bar>
                  \<le> calculateMonthlyPrice b * 12 / 2 ^ 49
            | _ \<Rightarrow> False)
         \<and> calculateYearlyPrice b None = calculateYearlyPrice b (Some (Finite 17))"
proof -
  from yearly_int [OF assms(1)] obtain n
    where y: "calculateMonthlyPrice b * 12 = of_int n" and n: "3588 \<le> n" "n * 100 < 2 ^ 53"
    by blast
  have n0: "0 < n" "n < 2 ^ 53" using n by simp_all
  have ypos: "(0::rat) < of_int n" using n0 by simp
  have "\<bar>d\<bar> \<le> 2 ^ 900" using assms(2,3) by simp
  from yearly_error [OF n0 this] obtain v
    where v: "dbl_sub (Finite (of_int n))
                (dbl_div (dbl_mul (Finite (of_int n)) (Finite d)) (Finite 100)) = Finite v"
      and e: "\<bar>v - (of_int n - of_int n * d / 100)\<bar>
                \<le> (of_int n + \<bar>of_int n * d\<bar> / 100) / 2 ^ 50"
    by blast
  define W where "W = of_int n * d"
  have W0: "0 \<le> W"
    unfolding W_def using ypos assms(2) by (intro mult_nonneg_nonneg) simp_all
  have "of_int n * d \<le> of_int n * 100"
    using ypos assms(3) by (intro mult_left_mono) simp_all
  then have W1: "W \<le> 100 * of_int n" by (simp add: W_def mult.commute)
  have "(of_int n + \<bar>W\<bar> / 100) / 2 ^ 50 \<le> of_int n / 2 ^ 49"
    using W0 W1 by simp
  then have "\<bar>v - (of_int n - W / 100)\<bar> \<le> of_int n / 2 ^ 49"
    using e [folded W_def] by linarith
  moreover have "of_int n - W / 100 = of_int n * (1 - d / 100)"
    by (simp add: W_def right_diff_distrib)
  ultimately have bound: "\<bar>v - of_int n * (1 - d / 100)\<bar> \<le> of_int n / 2 ^ 49"
    by simp
  have "calculateYearlyPrice b (Some (Finite d)) = Finite v"
    using v by (simp only: calculateYearlyPrice_exact_product [OF y n0])
  then have first: "case calculateYearlyPrice b (Some (Finite d)) of
            Finite v \<Rightarrow>
              \<bar>v - calculateMonthlyPrice b * 12 * (1 - d / 100)\<bar>
                \<le> calculateMonthlyPrice b * 12 / 2 ^ 49
          | _ \<Rightarrow> False"
    using bound by (simp add: y)
  have second: "calculateYearlyPrice b None = calculateYearlyPrice b (Some (Finite 17))"
    by (simp add: calculateYearlyPrice_def)
  have code: "calculateYearlyPrice b (Some (Finite d))
           = dbl_sub (Finite (calculateMonthlyPrice b * 12))
               (dbl_div (dbl_mul (Finite (calculateMonthlyPrice b * 12)) (Finite d))
                  (Finite 100))"
    by (simp only: calculateYearlyPrice_exact_product [OF y n0] y)
  from code first second show ?thesis by blast
qed

text \<open>C3, amended, at five branches and a discount of 17.\<close>

theorem C3_yearly_price_witness:
  "(5::int) \<le> 10 ^ 10 \<and> (0::rat) \<le> 17 \<and> (17::rat) \<le> 100
   \<and> calculateYearlyPrice 5 (Some (Finite 17))
       = dbl_sub (Finite (calculateMonthlyPrice 5 * 12))
           (dbl_div (dbl_mul (Finite (calculateMonthlyPrice 5 * 12)) (Finite 17))
              (Finite 100))
   \<and> (case calculateYearlyPrice 5 (Some (Finite 17)) of
         Finite v \<Rightarrow>
           \<bar>v - calculateMonthlyPrice 5 * 12 * (1 - 17 / 100)\<bar>
             \<le> calculateMonthlyPrice 5 * 12 / 2 ^ 49
       | _ \<Rightarrow> False)
   \<and> calculateYearlyPrice 5 None = calculateYearlyPrice 5 (Some (Finite 17))"
proof -
  have h: "(5::int) \<le> 10 ^ 10" "(0::rat) \<le> 17" "(17::rat) \<le> 100" by simp_all
  from C3_yearly_price [OF h] h show ?thesis by blast
qed

subsection \<open>Discounts outside the range\<close>

lemma tiny_discount_is_double: "round_double (- (1 / 1152921504606846976)) = Finite (- (1 / 1152921504606846976))"
proof -
  have "round_double (- (1 / 1152921504606846976)) = Finite (of_int (- 4503599627370496) * 2 powi ((- 60) - 52))"
    by (rule round_double_eval [where e = "(- 60)" and n = "(- 4503599627370496)"]) simp_all
  then show ?thesis by simp
qed

text \<open>
  C9, as stated, has a yearly price strictly above twelve monthly prices for every
  negative discount. At three branches and the discount \<open>-2^-60\<close>, which is a double,
  the discount amount is absorbed by the rounding of the subtraction, and the yearly
  price is exactly twelve monthly prices, 5964.
\<close>

theorem C9_tiny_discount_counterexample:
  "(- (1 / 2 ^ 60) :: rat) < 0
   \<and> is_double (- (1 / 2 ^ 60))
   \<and> calculateYearlyPrice 3 (Some (Finite (- (1 / 2 ^ 60))))
       = Finite (calculateMonthlyPrice 3 * 12)
   \<and> \<not> js_less (Finite (calculateMonthlyPrice 3 * 12))
         (calculateYearlyPrice 3 (Some (Finite (- (1 / 2 ^ 60)))))"
  using yearly_3_tiny tiny_discount_is_double
  by (simp add: is_double_def calculateMonthlyPrice_def PRICING_CONFIG_def)

text \<open>
  C9, amended. The discount is not clamped. For every branch count up to \<open>10^10\<close>:
  a discount above 100 (a double, or \<^verbatim>\<open>Infinity\<close>) gives a strictly negative yearly
  price; a discount below 0 gives a yearly price that is at least twelve monthly prices,
  and strictly more when the discount is between \<open>-2^900\<close> and \<open>-2^-43\<close>; and the
  discount passes
  through the formula: for every discount of magnitude up to \<open>2^900\<close> the yearly price is
  the real number \<open>monthly * 12 * (1 - d / 100)\<close> up to a relative rounding error of
  \<open>2^-50\<close> on \<open>monthly * 12 * (1 + |d| / 100)\<close>.
\<close>

theorem C9_discount_not_clamped:
  assumes "b \<le> 10 ^ 10"
  shows "(is_double d \<and> 100 < d \<longrightarrow>
            js_less (calculateYearlyPrice b (Some (Finite d))) (Finite 0))
         \<and> calculateYearlyPrice b (Some PosInfinity) = NegInfinity
         \<and> (d < 0 \<longrightarrow>
              js_le (Finite (calculateMonthlyPrice b * 12))
                (calculateYearlyPrice b (Some (Finite d))))
         \<and> (- (2 ^ 900) \<le> d \<and> d \<le> - (1 / 2 ^ 43) \<longrightarrow>
              js_less (Finite (calculateMonthlyPrice b * 12))
                (calculateYearlyPrice b (Some (Finite d))))
         \<and> calculateYearlyPrice b (Some NegInfinity) = PosInfinity
         \<and> (\<bar>d\<bar> \<le> 2 ^ 900 \<longrightarrow>
              (case calculateYearlyPrice b (Some (Finite d)) of
                 Finite v \<Rightarrow>
                   \<bar>v - calculateMonthlyPrice b * 12 * (1 - d / 100)\<bar>
                     \<le> calculateMonthlyPrice b * 12 * (1 + \<bar>d\<bar> / 100) / 2 ^ 50
               | _ \<Rightarrow> False))"
proof -
  from yearly_int [OF assms] obtain n
    where y: "calculateMonthlyPrice b * 12 = of_int n" and n: "3588 \<le> n" "n * 100 < 2 ^ 53"
    by blast
  have n0: "0 < n" "n < 2 ^ 53" using n by simp_all
  have ypos: "(0::rat) < of_int n" using n0 by simp
  note unfold = calculateYearlyPrice_exact_product [OF y n0]
  have above: "js_less (calculateYearlyPrice b (Some (Finite d))) (Finite 0)"
    if "is_double d" "100 < d"
    using yearly_negative [OF n that] by (simp only: unfold)
  have below: "js_le (Finite (calculateMonthlyPrice b * 12))
                 (calculateYearlyPrice b (Some (Finite d)))"
    if "d < 0"
    using yearly_not_below [OF n0 that] by (simp only: unfold y)
  have through: "\<exists>v. calculateYearlyPrice b (Some (Finite d)) = Finite v
           \<and> \<bar>v - of_int n * (1 - d / 100)\<bar> \<le> of_int n * (1 + \<bar>d\<bar> / 100) / 2 ^ 50"
    if "\<bar>d\<bar> \<le> 2 ^ 900"
  proof -
    from yearly_error [OF n0 that] obtain v
      where v: "dbl_sub (Finite (of_int n))
                  (dbl_div (dbl_mul (Finite (of_int n)) (Finite d)) (Finite 100)) = Finite v"
        and e: "\<bar>v - (of_int n - of_int n * d / 100)\<bar>
                  \<le> (of_int n + \<bar>of_int n * d\<bar> / 100) / 2 ^ 50"
      by blast
    have "\<bar>of_int n * d\<bar> = of_int n * \<bar>d\<bar>"
      using ypos by (simp add: abs_mult)
    then have "(of_int n + \<bar>of_int n * d\<bar> / 100) / 2 ^ 50
                 = of_int n * (1 + \<bar>d\<bar> / 100) / 2 ^ 50"
      by (simp add: distrib_left)
    moreover have "of_int n - of_int n * d / 100 = of_int n * (1 - d / 100)"
      by (simp add: right_diff_distrib)
    ultimately have "\<bar>v - of_int n * (1 - d / 100)\<bar> \<le> of_int n * (1 + \<bar>d\<bar> / 100) / 2 ^ 50"
      using e by simp
    then show ?thesis using v by (simp add: unfold)
  qed
  have strictly: "js_less (Finite (calculateMonthlyPrice b * 12))
                    (calculateYearlyPrice b (Some (Finite d)))"
    if "- (2 ^ 900) \<le> d" "d \<le> - (1 / 2 ^ 43)"
  proof -
    have dneg: "d < 0" using that(2) by (rule le_less_trans) simp
    then have "\<bar>d\<bar> \<le> 2 ^ 900" using that(1) by simp
    from through [OF this] obtain v
      where v: "calculateYearlyPrice b (Some (Finite d)) = Finite v"
        and e: "\<bar>v - of_int n * (1 - d / 100)\<bar> \<le> of_int n * (1 + \<bar>d\<bar> / 100) / 2 ^ 50"
      by blast
    define w where "w = of_int n * (- d) / 100"
    have "of_int n * (1 / 2 ^ 43) \<le> of_int n * (- d)"
      using that(2) ypos by (intro mult_left_mono) simp_all
    then have "of_int n * (1 / 2 ^ 43) / 100 \<le> of_int n * (- d) / 100"
      by (rule divide_right_mono) simp
    then have wlow: "of_int n / 2 ^ 43 / 100 \<le> w"
      by (simp only: w_def mult_1_right times_divide_eq_right)
    have "of_int n * (1 - d / 100) = of_int n + w"
      by (simp add: w_def field_simps)
    moreover have "of_int n * (1 + \<bar>d\<bar> / 100) = of_int n + w"
      using dneg by (simp add: w_def abs_of_neg field_simps)
    ultimately have "\<bar>v - (of_int n + w)\<bar> \<le> (of_int n + w) / 2 ^ 50"
      using e by simp
    then have "of_int n + w - (of_int n + w) / 2 ^ 50 \<le> v" by linarith
    moreover have "of_int n < of_int n + w - (of_int n + w) / 2 ^ 50"
      using wlow ypos by simp
    ultimately have "of_int n < v" by linarith
    then show ?thesis by (simp add: v y)
  qed
  have pinf: "calculateYearlyPrice b (Some PosInfinity) = NegInfinity"
    using ypos by (simp add: unfold inf_of_sign_def)
  have ninf: "calculateYearlyPrice b (Some NegInfinity) = PosInfinity"
    using ypos by (simp add: unfold inf_of_sign_def)
  have pass: "case calculateYearlyPrice b (Some (Finite d)) of
                 Finite v \<Rightarrow>
                   \<bar>v - calculateMonthlyPrice b * 12 * (1 - d / 100)\<bar>
                     \<le> calculateMonthlyPrice b * 12 * (1 + \<bar>d\<bar> / 100) / 2 ^ 50
               | _ \<Rightarrow> False"
    if "\<bar>d\<bar> \<le> 2 ^ 900"
    using through [OF that] by (auto simp add: y)
  from above below strictly pinf ninf pass show ?thesis by blast
qed

text \<open>
  C9, amended, at three branches: the discount 150 above the range, the discount -10
  below it.
\<close>

theorem C9_discount_not_clamped_witness:
  "(3::int) \<le> 10 ^ 10
   \<and> is_double 150 \<and> (100::rat) < 150
   \<and> js_less (calculateYearlyPrice 3 (Some (Finite 150))) (Finite 0)
   \<and> (- 10 :: rat) < 0
   \<and> js_le (Finite (calculateMonthlyPrice 3 * 12))
        (calculateYearlyPrice 3 (Some (Finite (- 10))))
   \<and> - (2 ^ 900) \<le> (- 10 :: rat) \<and> (- 10 :: rat) \<le> - (1 / 2 ^ 43)
   \<and> js_less (Finite (calculateMonthlyPrice 3 * 12))
        (calculateYearlyPrice 3 (Some (Finite (- 10))))
   \<and> \<bar>150 :: rat\<bar> \<le> 2 ^ 900
   \<and> (case calculateYearlyPrice 3 (Some (Finite 150)) of
         Finite v \<Rightarrow>
           \<bar>v - calculateMonthlyPrice 3 * 12 * (1 - 150 / 100)\<bar>
             \<le> calculateMonthlyPrice 3 * 12 * (1 + \<bar>150\<bar> / 100) / 2 ^ 50
       | _ \<Rightarrow> False)"
proof -
  have b: "(3::int) \<le> 10 ^ 10" by simp
  have d: "is_double 150" by (simp add: is_double_def round_double_numeral)
  have h1: "(100::rat) < 150" by simp
  have h2: "(- 10 :: rat) < 0" by simp
  have h3: "- (2 ^ 900) \<le> (- 10 :: rat)" "(- 10 :: rat) \<le> - (1 / 2 ^ 43)" by simp_all
  have h4: "\<bar>150 :: rat\<bar> \<le> 2 ^ 900" by simp
  from C9_discount_not_clamped [OF b, of 150] d h1 h4
  have 1: "js_less (calculateYearlyPrice 3 (Some (Finite 150))) (Finite 0)"
    and 4: "case calculateYearlyPrice 3 (Some (Finite 150)) of
         Finite v \<Rightarrow>
           \<bar>v - calculateMonthlyPrice 3 * 12 * (1 - 150 / 100)\<bar>
             \<le> calculateMonthlyPrice 3 * 12 * (1 + \<bar>150\<bar> / 100) / 2 ^ 50
       | _ \<Rightarrow> False"
    by blast+
  from C9_discount_not_clamped [OF b, of "- 10"] h2 h3
  have 2: "js_le (Finite (calculateMonthlyPrice 3 * 12))
        (calculateYearlyPrice 3 (Some (Finite (- 10))))"
    and 3: "js_less (Finite (calculateMonthlyPrice 3 * 12))
        (calculateYearlyPrice 3 (Some (Finite (- 10))))"
    by blast+
  from b d h1 h2 h3 h4 1 2 3 4 show ?thesis by blast
qed

subsection \<open>The scenario of one and five branches\<close>

lemma yearly_one_and_five:
  "calculateYearlyPrice 1 None = round_double 2978.04
   \<and> calculateYearlyPrice 5 None = round_double 6922.20"
  using yearly_1 yearly_5 literal_2978_04 literal_6922_20 by simp

text \<open>
  A decimal figure of the scenario is read as JavaScript reads the literal: the double
  nearest to it, \<open>round_double 2978.04\<close>.

  C4, as stated, gives 6920.20 for the yearly price of five branches. The source
  computes \<open>695 * 12 - 695 * 12 * 17 / 100\<close>, which is the double 6922.20.
\<close>

theorem C4_yearly_five_counterexample: "calculateYearlyPrice 5 None \<noteq> round_double 6920.20"
  using yearly_5 literal_6920_20 by simp

text \<open>
  C4, amended. With the base price 299, the additional branch price 99 and the default
  discount 17: one branch costs 299 a month and 2978.04 a year; five branches cost 695
  a month and 6922.20 a year; going from one to five branches is a difference of 396 for
  4 more branches, an increase, of \<open>39600 / 299\<close> percent, which is 132.44 to two
  decimals.
\<close>

theorem C4_scenario:
  "basePriceMonthly PRICING_CONFIG = 299
   \<and> additionalBranchPrice PRICING_CONFIG = 99
   \<and> calculateMonthlyPrice 1 = 299
   \<and> calculateYearlyPrice 1 None = round_double 2978.04
   \<and> calculateMonthlyPrice 5 = 695
   \<and> calculateYearlyPrice 5 None = round_double 6922.20
   \<and> difference (calculatePriceDifference 1 5) = 396
   \<and> branchDifference (calculatePriceDifference 1 5) = 4
   \<and> isIncrease (calculatePriceDifference 1 5)
   \<and> percentChange (calculatePriceDifference 1 5) = 39600 / 299
   \<and> \<bar>percentChange (calculatePriceDifference 1 5) - 132.44\<bar> < 0.005"
  using yearly_one_and_five
  by (simp add: calculatePriceDifference_def calculateMonthlyPrice_def PRICING_CONFIG_def
        Let_def)

subsection \<open>Price difference\<close>

text \<open>
  C5, as stated, says that \<^verbatim>\<open>calculatePriceDifference(0, b)\<close> has the current price 0
  and the percent change 0. The monthly price of zero branches is the clamped base
  price: from zero to five branches the current price is 299 and the change is not 0.
\<close>

theorem C5_zero_branches_counterexample:
  "currentPrice (calculatePriceDifference 0 5) = 299
   \<and> percentChange (calculatePriceDifference 0 5) \<noteq> 0"
  by (simp add: calculatePriceDifference_def calculateMonthlyPrice_def PRICING_CONFIG_def
        Let_def)

text \<open>
  C5, amended. For every pair of branch counts the percent change is the difference
  divided by the current price times 100 when the current price is positive and 0
  otherwise; the current price is always positive, so no division by zero occurs; in
  particular, for every \<open>b\<close>, \<^verbatim>\<open>calculatePriceDifference(0, b)\<close> has the current price of
  \<open>minBranches\<close> branches, 299, and the percent change \<open>(newPrice - 299) / 299 * 100\<close>.
\<close>

theorem C5_percentChange:
  "percentChange (calculatePriceDifference a b)
     = (if currentPrice (calculatePriceDifference a b) > 0
        then difference (calculatePriceDifference a b)
             / currentPrice (calculatePriceDifference a b) * 100
        else 0)
   \<and> currentPrice (calculatePriceDifference a b) > 0
   \<and> currentPrice (calculatePriceDifference 0 b)
       = calculateMonthlyPrice (minBranches PRICING_CONFIG)
   \<and> currentPrice (calculatePriceDifference 0 b) = 299
   \<and> percentChange (calculatePriceDifference 0 b)
       = (newPrice (calculatePriceDifference 0 b) - 299) / 299 * 100"
  using calculateMonthlyPrice_pos [of a]
  by (simp add: calculatePriceDifference_def Let_def calculateMonthlyPrice_def
        PRICING_CONFIG_def)

text \<open>
  C10. For every pair of branch counts: the difference is the new price minus the
  current price, the branch difference is the new count minus the current count, the
  two flags are never both set, exactly one of increase, decrease and zero difference
  holds, and an unchanged branch count gives the difference 0 with both flags unset.
\<close>

theorem C10_price_difference:
  "difference (calculatePriceDifference a b)
      = newPrice (calculatePriceDifference a b) - currentPrice (calculatePriceDifference a b)
   \<and> newPrice (calculatePriceDifference a b) = calculateMonthlyPrice b
   \<and> currentPrice (calculatePriceDifference a b) = calculateMonthlyPrice a
   \<and> branchDifference (calculatePriceDifference a b) = b - a
   \<and> \<not> (isIncrease (calculatePriceDifference a b)
         \<and> isDecrease (calculatePriceDifference a b))
   \<and> length (filter (\<lambda>p. p)
        [isIncrease (calculatePriceDifference a b),
         isDecrease (calculatePriceDifference a b),
         difference (calculatePriceDifference a b) = 0]) = 1
   \<and> difference (calculatePriceDifference c c) = 0
   \<and> \<not> isIncrease (calculatePriceDifference c c)
   \<and> \<not> isDecrease (calculatePriceDifference c c)"
  by (simp add: calculatePriceDifference_def Let_def)

subsection \<open>Validation\<close>

text \<open>
  C8. For every integer branch count the validation returns a result that is invalid
  exactly when the count is below \<open>minBranches\<close>, with an error message when invalid and
  none when valid; zero branches are invalid with a message, one branch is valid
  without.
\<close>

theorem C8_validateBranchCount:
  "(\<not> isValid (validateBranchCount b)) = (b < minBranches PRICING_CONFIG)
   \<and> error (validateBranchCount b)
       = (if isValid (validateBranchCount b) then None
          else Some ''Branch count must be at least 1'')
   \<and> (error (validateBranchCount b) = None) = isValid (validateBranchCount b)
   \<and> \<not> isValid (validateBranchCount 0)
   \<and> error (validateBranchCount 0) \<noteq> None
   \<and> isValid (validateBranchCount 1)
   \<and> error (validateBranchCount 1) = None"
  using string_of_int_minBranches
  by (auto simp add: validateBranchCount_def PRICING_CONFIG_def Let_def)

section \<open>Properties of the brand metrics aggregation\<close>

lemma succeeded_append: "succeeded (xs @ ys) = succeeded xs @ succeeded ys"
  by (induction xs rule: succeeded.induct) simp_all

text \<open>
  The loop visits every branch and changes its variables only for a fulfilled request.
\<close>

lemma forEach_metrics_succeeded:
  "forEach_metrics (map (\<lambda>p. catch_null (snd p)) fetched) (map fst fetched) acc =
     \<lparr> acc_totalRevenue = acc_totalRevenue acc
          + sum_list (map (\<lambda>p. or_zero (stat_revenue (snd p))) (succeeded fetched)),
       acc_totalOrders = acc_totalOrders acc
          + sum_list (map (\<lambda>p. or_zero (stat_orders (snd p))) (succeeded fetched)),
       acc_rows = acc_rows acc @ input_rows fetched \<rparr>"
proof (induction fetched arbitrary: acc rule: succeeded.induct)
  case 1
  then show ?case by (simp add: input_rows_def)
next
  case (2 b err rest)
  then show ?case by (simp add: input_rows_def)
next
  case (3 b metrics rest)
  then show ?case by (simp add: input_rows_def algebra_simps)
qed

lemma fetchBrandMetrics_succeeded:
  "fetchBrandMetrics fetched st =
     (let rows = array_sort byRevenueDesc (input_rows fetched);
          revenues = sum_list (map (\<lambda>p. or_zero (stat_revenue (snd p))) (succeeded fetched));
          orderss = sum_list (map (\<lambda>p. or_zero (stat_orders (snd p))) (succeeded fetched))
      in st \<lparr> loading := False,
              brandMetrics :=
                \<lparr> totalRevenue = revenues,
                  totalOrders = orderss,
                  averageOrderValue = (if orderss > 0 then revenues / orderss else 0),
                  growthRate =
                    (if length rows > 0
                     then foldl (\<lambda>sum b. sum + growth b) 0 rows / of_nat (length rows)
                     else 0) \<rparr>,
              branchPerformance := rows \<rparr>)"
  by (simp add: fetchBrandMetrics_def Let_def forEach_metrics_succeeded)

lemma branchPerformance_eq:
  "branchPerformance (fetchBrandMetrics fetched st)
     = array_sort byRevenueDesc (input_rows fetched)"
  by (simp add: fetchBrandMetrics_succeeded Let_def)

lemma row_id_input_rows:
  "map row_id (input_rows fetched) = map (\<lambda>p. branch_id (fst p)) (succeeded fetched)"
  by (simp add: input_rows_def make_row_def)

subsection \<open>The sort\<close>

lemma set_insert_sorted: "set (insert_sorted cmp x xs) = insert x (set xs)"
  by (induction xs) auto

lemma mset_insert_sorted: "mset (insert_sorted cmp x xs) = add_mset x (mset xs)"
  by (induction xs) auto

lemma mset_array_sort: "mset (array_sort cmp xs) = mset xs"
  by (induction xs) (simp_all add: array_sort_def mset_insert_sorted)

lemma length_array_sort: "length (array_sort cmp xs) = length xs"
  using mset_array_sort [of cmp xs] by (metis size_mset)

lemma sorted_insert_sorted:
  "sorted_wrt (\<lambda>x y. revenue y \<le> revenue x) xs \<Longrightarrow>
   sorted_wrt (\<lambda>x y. revenue y \<le> revenue x) (insert_sorted byRevenueDesc e xs)"
  by (induction xs) (auto simp: byRevenueDesc_def set_insert_sorted)

lemma sorted_array_sort:
  "sorted_wrt (\<lambda>x y. revenue y \<le> revenue x) (array_sort byRevenueDesc xs)"
  by (induction xs) (simp_all add: array_sort_def sorted_insert_sorted)

text \<open>
  Stability: the rows of any one revenue keep their order. An inserted row passes only
  rows of strictly greater revenue.
\<close>

lemma filter_insert_sorted:
  "filter (\<lambda>e. revenue e = r) (insert_sorted byRevenueDesc x xs) =
     (if revenue x = r then x # filter (\<lambda>e. revenue e = r) xs
      else filter (\<lambda>e. revenue e = r) xs)"
  by (induction xs) (auto simp: byRevenueDesc_def)

lemma filter_array_sort:
  "filter (\<lambda>e. revenue e = r) (array_sort byRevenueDesc xs) = filter (\<lambda>e. revenue e = r) xs"
  by (induction xs) (simp_all add: array_sort_def filter_insert_sorted)

text \<open>
  A run on three branches: the second request is rejected, the first and the third have
  the same revenue. The table has the two fulfilled branches, the first before the third.
\<close>

lemma fetchBrandMetrics_example:
  "map row_id (branchPerformance (fetchBrandMetrics
       [(\<lparr>branch_id = ''b1'', branch_name = ''Olaya'', branch_location = ''Riyadh''\<rparr>,
         Resolved \<lparr>stat_revenue = Some 500, stat_orders = Some 10, stat_growth = Some 4\<rparr>),
        (\<lparr>branch_id = ''b2'', branch_name = ''Corniche'', branch_location = ''Jeddah''\<rparr>,
         Rejected ''timeout''),
        (\<lparr>branch_id = ''b3'', branch_name = ''Mall'', branch_location = ''Dammam''\<rparr>,
         Resolved \<lparr>stat_revenue = Some 500, stat_orders = Some 20, stat_growth = None\<rparr>)]
       \<lparr>loading = True,
        brandMetrics = \<lparr>totalRevenue = 0, totalOrders = 0, averageOrderValue = 0,
                         growthRate = 0\<rparr>,
        branchPerformance = []\<rparr>)) = [''b1'', ''b3'']"
  by (simp add: fetchBrandMetrics_def Let_def array_sort_def make_row_def or_zero_def
        byRevenueDesc_def)

subsection \<open>Partial aggregation\<close>

text \<open>
  C6, as stated, says that the partial result comes with a count of the branches that
  succeeded. The brand metrics that the function sets have no such component: a run
  where the only request is rejected and a run where it is fulfilled with zero revenue,
  orders and growth set the same brand metrics, with zero and one branch succeeded.
\<close>

theorem C6_no_count_counterexample:
  "brandMetrics (fetchBrandMetrics
       [(\<lparr>branch_id = ''b1'', branch_name = ''Olaya'', branch_location = ''Riyadh''\<rparr>,
         Rejected ''timeout'')]
       \<lparr>loading = True,
        brandMetrics = \<lparr>totalRevenue = 0, totalOrders = 0, averageOrderValue = 0,
                         growthRate = 0\<rparr>,
        branchPerformance = []\<rparr>)
   = brandMetrics (fetchBrandMetrics
       [(\<lparr>branch_id = ''b1'', branch_name = ''Olaya'', branch_location = ''Riyadh''\<rparr>,
         Resolved \<lparr>stat_revenue = Some 0, stat_orders = Some 0, stat_growth = Some 0\<rparr>)]
       \<lparr>loading = True,
        brandMetrics = \<lparr>totalRevenue = 0, totalOrders = 0, averageOrderValue = 0,
                         growthRate = 0\<rparr>,
        branchPerformance = []\<rparr>)
   \<and> length (succeeded
       [(\<lparr>branch_id = ''b1'', branch_name = ''Olaya'', branch_location = ''Riyadh''\<rparr>,
         Rejected ''timeout'')]) = 0
   \<and> length (succeeded
       [(\<lparr>branch_id = ''b1'', branch_name = ''Olaya'', branch_location = ''Riyadh''\<rparr>,
         Resolved \<lparr>stat_revenue = Some 0, stat_orders = Some 0, stat_growth = Some 0\<rparr>)]) = 1"
  by (simp add: fetchBrandMetrics_def Let_def array_sort_def make_row_def or_zero_def)

text \<open>
  C6, amended. A rejected request of one branch is caught for that branch, and the
  branch is left out of the totals and of the performance table; the computation is not
  aborted: it always ends with \<open>loading\<close> cleared, the totals of the branches that
  succeeded, and a table that has exactly the identifiers of those branches. The result
  is the one the same branch list gives without the rejected branch. No separate count
  is set: the number of branches that succeeded is the number of rows of the table.
\<close>

theorem C6_partial_aggregation:
  "\<not> loading (fetchBrandMetrics fetched st)
   \<and> totalRevenue (brandMetrics (fetchBrandMetrics fetched st))
       = sum_list (map (\<lambda>p. or_zero (stat_revenue (snd p))) (succeeded fetched))
   \<and> totalOrders (brandMetrics (fetchBrandMetrics fetched st))
       = sum_list (map (\<lambda>p. or_zero (stat_orders (snd p))) (succeeded fetched))
   \<and> mset (map row_id (branchPerformance (fetchBrandMetrics fetched st)))
       = mset (map (\<lambda>p. branch_id (fst p)) (succeeded fetched))
   \<and> length (branchPerformance (fetchBrandMetrics fetched st)) = length (succeeded fetched)
   \<and> fetchBrandMetrics (xs @ (b, Rejected err) # ys) st = fetchBrandMetrics (xs @ ys) st"
proof -
  have ids: "mset (map row_id (array_sort byRevenueDesc (input_rows fetched)))
               = mset (map (\<lambda>p. branch_id (fst p)) (succeeded fetched))"
    using mset_array_sort [of byRevenueDesc "input_rows fetched"]
      row_id_input_rows [of fetched]
    by (metis mset_map)
  have len: "length (array_sort byRevenueDesc (input_rows fetched))
               = length (succeeded fetched)"
    by (simp add: length_array_sort input_rows_def)
  have skip: "succeeded (xs @ (b, Rejected err) # ys) = succeeded (xs @ ys)"
    by (simp add: succeeded_append)
  have excl: "fetchBrandMetrics (xs @ (b, Rejected err) # ys) st
                = fetchBrandMetrics (xs @ ys) st"
    by (simp only: fetchBrandMetrics_succeeded input_rows_def skip)
  show ?thesis
    using ids len excl by (simp add: fetchBrandMetrics_succeeded Let_def)
qed

subsection \<open>Order of the performance table\<close>

text \<open>
  C7. For every input the performance table is the sequence of input rows (the rows of
  the fulfilled requests, in the order of the branch list) sorted by revenue in
  descending order: it is descending, it has the same rows, and for every revenue \<open>r\<close>
  the rows of revenue \<open>r\<close> are in their original relative order. The revenue of an
  input row is the revenue of the fetched statistics of its branch (0 when absent), and
  its identifier is that of the branch.
\<close>

theorem C7_branchPerformance_sorted_stable:
  "sorted_wrt (\<lambda>x y. revenue y \<le> revenue x) (branchPerformance (fetchBrandMetrics fetched st))
   \<and> mset (branchPerformance (fetchBrandMetrics fetched st)) = mset (input_rows fetched)
   \<and> filter (\<lambda>e. revenue e = r) (branchPerformance (fetchBrandMetrics fetched st))
       = filter (\<lambda>e. revenue e = r) (input_rows fetched)
   \<and> map revenue (input_rows fetched)
       = map (\<lambda>p. case stat_revenue (snd p) of None \<Rightarrow> 0 | Some v \<Rightarrow> v) (succeeded fetched)
   \<and> map row_id (input_rows fetched) = map (\<lambda>p. branch_id (fst p)) (succeeded fetched)"
  by (simp add: branchPerformance_eq sorted_array_sort mset_array_sort filter_array_sort
        input_rows_def make_row_def or_zero_def)

end
